theory Spec2Isabelle
  imports Complex_Main "HOL-Library.Signed_Division" "HOL-Library.Product_Lexorder"
begin

section \<open>JavaScript strings\<close>

text \<open>
  A JavaScript string is a sequence of UTF-16 code units. The regular expressions of the
  source carry no \<open>u\<close> flag, so they too work on code units. A code unit is modelled by
  its number; the glyphs the source names are
  \<open>#\<close> = 35, \<open>b\<close> = 98, \<open>/\<close> = 47, the degree sign = 176, capital delta = 916,
  the music sharp sign = 9839 and the music flat sign = 9837.
  \<open>js\<close> turns an ASCII literal into such a sequence.
\<close>

type_synonym jchar = nat
type_synonym jstring = "jchar list"

definition js :: "string \<Rightarrow> jstring" where
  "js s = map of_char s"

text \<open>The class \<open>\s\<close> of ECMAScript (white space and line terminators); \<open>trim\<close> strips
  the same set.\<close>

definition isSpace :: "jchar \<Rightarrow> bool" where
  "isSpace c \<longleftrightarrow>
     c = 9 \<or> c = 10 \<or> c = 11 \<or> c = 12 \<or> c = 13 \<or> c = 32 \<or> c = 160 \<or> c = 5760 \<or>
     (8192 \<le> c \<and> c \<le> 8202) \<or> c = 8232 \<or> c = 8233 \<or> c = 8239 \<or> c = 8287 \<or>
     c = 12288 \<or> c = 65279"

definition trim :: "jstring \<Rightarrow> jstring" where
  "trim s = rev (dropWhile isSpace (rev (dropWhile isSpace s)))"

text \<open>\<open>s.replace(a, b)\<close> with a one-character string pattern: the first occurrence only.\<close>

fun replaceFirst :: "jchar \<Rightarrow> jchar \<Rightarrow> jstring \<Rightarrow> jstring" where
  "replaceFirst a b [] = []"
| "replaceFirst a b (c # cs) = (if c = a then b # cs else c # replaceFirst a b cs)"

text \<open>
  \<open>toUpperCase\<close> of a one-unit string. On ASCII it is the usual shift. Outside ASCII the
  result of JavaScript is another string that is never a single ASCII letter (the only
  code units that upper-case into ASCII are the dotless i and the long s, giving I and S);
  the model leaves such a unit as it is, which gives the same outcome for every table
  lookup of the source, whose keys begin with A to G.
\<close>

definition toUpperCase1 :: "jchar \<Rightarrow> jstring" where
  "toUpperCase1 c = (if 97 \<le> c \<and> c \<le> 122 then [c - 32] else [c])"

section \<open>Pitch model (lib/transpose.ts)\<close>

definition SHARPS :: "jstring list" where
  "SHARPS = [js ''C'', js ''C#'', js ''D'', js ''D#'', js ''E'', js ''F'',
             js ''F#'', js ''G'', js ''G#'', js ''A'', js ''A#'', js ''B'']"

definition FLATS :: "jstring list" where
  "FLATS = [js ''C'', js ''Db'', js ''D'', js ''Eb'', js ''E'', js ''F'',
            js ''Gb'', js ''G'', js ''Ab'', js ''A'', js ''Bb'', js ''B'']"

definition ENHARMONIC_MAP :: "jstring \<rightharpoonup> int" where
  "ENHARMONIC_MAP = map_of
     [(js ''C'', 0), (js ''B#'', 0),
      (js ''C#'', 1), (js ''Db'', 1),
      (js ''D'', 2),
      (js ''D#'', 3), (js ''Eb'', 3),
      (js ''E'', 4), (js ''Fb'', 4),
      (js ''F'', 5), (js ''E#'', 5),
      (js ''F#'', 6), (js ''Gb'', 6),
      (js ''G'', 7),
      (js ''G#'', 8), (js ''Ab'', 8),
      (js ''A'', 9),
      (js ''A#'', 10), (js ''Bb'', 10),
      (js ''B'', 11), (js ''Cb'', 11)]"

definition SHARP_KEYS :: "jstring list" where
  "SHARP_KEYS = [js ''G'', js ''D'', js ''A'', js ''E'', js ''B'', js ''F#'', js ''C#'']"

definition FLAT_KEYS :: "jstring list" where
  "FLAT_KEYS = [js ''F'', js ''Bb'', js ''Eb'', js ''Ab'', js ''Db'', js ''Gb'', js ''Cb'']"

definition preferSharpsForKey :: "jstring \<Rightarrow> bool" where
  "preferSharpsForKey key =
     (if key \<in> set SHARP_KEYS then True
      else if key \<in> set FLAT_KEYS then False
      else True)"

text \<open>
  \<open>normNote\<close>: \<open>t[0]?.toUpperCase()\<close> is \<open>undefined\<close> on an empty \<open>t\<close>, and
  \<open>undefined + acc\<close> is the string \<open>"undefined"\<close> followed by \<open>acc\<close>.
\<close>

definition normNote :: "jstring \<Rightarrow> jstring option" where
  "normNote raw =
     (if raw = [] then None
      else
        let t = trim (replaceFirst 9837 98 (replaceFirst 9839 35 raw));
            head = (case t of [] \<Rightarrow> js ''undefined'' | c # _ \<Rightarrow> toUpperCase1 c);
            acc = (case t of _ # a # _ \<Rightarrow> if a = 35 \<or> a = 98 then [a] else [] | _ \<Rightarrow> []);
            note = head @ acc
        in if ENHARMONIC_MAP note \<noteq> None then Some note else None)"

definition indexOf :: "jstring \<Rightarrow> int option" where
  "indexOf note = ENHARMONIC_MAP note"

text \<open>
  The source's \<open>number\<close> is an IEEE 754 double. The numbers of this program are whole
  (steps are whole semitones), so a \<open>number\<close> is modelled by the \<open>int\<close> it denotes, and the
  one place where a result may fail to be representable is written out: the sum
  \<open>idx + steps\<close> of \<open>transposeNote\<close>, which is rounded to the nearest double, ties to the
  even significand. A double of magnitude \<open>m\<close> with \<open>2^52 * u \<le> m < 2^53 * u\<close> (\<open>u\<close> a power
  of two) is a multiple of \<open>u\<close>; every whole number of magnitude up to \<open>2^53\<close> is a double.
  \<open>ulpFrom m 1\<close> is the least power of two \<open>u\<close> with \<open>m < 2^53 * u\<close>. The sum of a finite
  double and an index below 12 never overflows. \<open>%\<close> is the truncating remainder \<open>smod\<close>,
  which is exact on doubles, and so are the sums of small numbers elsewhere. The index into
  the spelling tables is always within 0 to 11.
\<close>

function ulpFrom :: "nat \<Rightarrow> nat \<Rightarrow> nat" where
  "ulpFrom m u = (if u = 0 \<or> m < 9007199254740992 * u then u else ulpFrom m (2 * u))"
  by pat_completeness auto
termination
  by (relation "measure (\<lambda>(m, u). m - u)") auto

definition roundToDouble :: "int \<Rightarrow> int" where
  "roundToDouble x =
     (let u = int (ulpFrom (nat \<bar>x\<bar>) 1);
          q = x div u;
          r = x mod u
      in if 2 * r < u then q * u
         else if u < 2 * r then (q + 1) * u
         else if even q then q * u
         else (q + 1) * u)"

definition chooseSpelling :: "int \<Rightarrow> bool \<Rightarrow> jstring" where
  "chooseSpelling semitone preferSharps =
     (let semitone' = ((semitone smod 12) + 12) smod 12
      in if preferSharps then SHARPS ! nat semitone' else FLATS ! nat semitone')"

text \<open>
  \<open>transposeNote\<close>. A note that \<open>normNote\<close> returns is a key of the table, so the
  last branch (a note without an index) is never taken; see \<open>normNote_indexOf\<close>.
  \<open>steps\<close> stands for a whole-valued double, and \<open>idx + steps\<close> is the rounded sum.
\<close>

definition transposeNote :: "jstring \<Rightarrow> int \<Rightarrow> bool \<Rightarrow> jstring" where
  "transposeNote noteRaw steps preferSharps =
     (case normNote noteRaw of
        None \<Rightarrow> noteRaw
      | Some note \<Rightarrow>
          (case indexOf note of
             Some idx \<Rightarrow>
               (let outIdx = (roundToDouble (idx + steps) smod 12 + 12) smod 12
                in chooseSpelling outIdx preferSharps)
           | None \<Rightarrow> noteRaw))"

text \<open>
  The pitch class that \<open>transposeNote\<close> computes for a raw note in its first three
  lines (\<open>normNote\<close>, then \<open>indexOf\<close>); \<open>None\<close> for an unrecognized note.
\<close>

definition pitchClass :: "jstring \<Rightarrow> int option" where
  "pitchClass noteRaw = (case normNote noteRaw of None \<Rightarrow> None | Some note \<Rightarrow> indexOf note)"

section \<open>Regular expressions of lib/transpose.ts\<close>

text \<open>
  The patterns carry the \<open>i\<close> flag: a pattern character and an input unit match when
  their canonical forms (upper case for a single unit) are equal. On ASCII the function
  below is ECMAScript's \<open>Canonicalize\<close>. Outside ASCII it is right for every comparison
  the patterns make: no unit above 127 canonicalizes into ASCII, the small delta (948)
  is the only other unit that canonicalizes to the capital delta (916), and nothing else
  canonicalizes to the degree sign (176).
\<close>

definition canonicalize :: "jchar \<Rightarrow> jchar" where
  "canonicalize c = (if 97 \<le> c \<and> c \<le> 122 then c - 32 else if c = 948 then 916 else c)"

definition ci :: "jchar \<Rightarrow> jchar \<Rightarrow> bool" where
  "ci p c \<longleftrightarrow> canonicalize p = canonicalize c"

text \<open>\<open>[A-G]\<close> and \<open>(?:#|b)\<close> under the \<open>i\<close> flag, and \<open>\d\<close>.\<close>

definition isRootLetter :: "jchar \<Rightarrow> bool" where
  "isRootLetter c \<longleftrightarrow> 65 \<le> canonicalize c \<and> canonicalize c \<le> 71"

definition isAccidental :: "jchar \<Rightarrow> bool" where
  "isAccidental c \<longleftrightarrow> c = 35 \<or> ci 98 c"

definition isDigit :: "jchar \<Rightarrow> bool" where
  "isDigit c \<longleftrightarrow> 48 \<le> c \<and> c \<le> 57"

text \<open>
  A pattern of the shape \<open>^([A-G](?:#|b)?)(T*)$\<close>, where \<open>T\<close> is a class of single
  units: the optional accidental is tried first (it is greedy), and the match without it
  is the fallback. The result is the pair of the two groups.
\<close>

definition matchRootTail :: "(jchar \<Rightarrow> bool) \<Rightarrow> jstring \<Rightarrow> (jstring \<times> jstring) option" where
  "matchRootTail tailUnit s =
     (case s of
        [] \<Rightarrow> None
      | c # cs \<Rightarrow>
          if \<not> isRootLetter c then None
          else
            (case (case cs of
                     a # rest \<Rightarrow>
                       if isAccidental a \<and> list_all tailUnit rest then Some ([c, a], rest)
                       else None
                   | [] \<Rightarrow> None) of
               Some m \<Rightarrow> Some m
             | None \<Rightarrow> if list_all tailUnit cs then Some ([c], cs) else None))"

text \<open>\<open>CHORD_RE = /^([A-G](?:#|b)?)([^/\s]*)$/i\<close>\<close>

definition CHORD_RE :: "jstring \<Rightarrow> (jstring \<times> jstring) option" where
  "CHORD_RE = matchRootTail (\<lambda>x. x \<noteq> 47 \<and> \<not> isSpace x)"

text \<open>
  The alternatives of \<open>isChordLike\<close>'s starred group, by length: the one-unit ones
  \<open>m \d \/ [A-G] # b \+ \- \<degree> \<Delta>\<close> and the three-unit ones
  \<open>maj min dim aug sus add\<close>.
\<close>

definition unit1 :: "jchar \<Rightarrow> bool" where
  "unit1 c \<longleftrightarrow>
     ci 109 c \<or> isDigit c \<or> c = 47 \<or> isRootLetter c \<or> c = 35 \<or> ci 98 c \<or>
     c = 43 \<or> c = 45 \<or> c = 176 \<or> ci 916 c"

definition word3 :: "string \<Rightarrow> jchar \<Rightarrow> jchar \<Rightarrow> jchar \<Rightarrow> bool" where
  "word3 w c1 c2 c3 \<longleftrightarrow> map canonicalize (js w) = map canonicalize [c1, c2, c3]"

definition unit3 :: "jchar \<Rightarrow> jchar \<Rightarrow> jchar \<Rightarrow> bool" where
  "unit3 c1 c2 c3 \<longleftrightarrow>
     word3 ''maj'' c1 c2 c3 \<or> word3 ''min'' c1 c2 c3 \<or> word3 ''dim'' c1 c2 c3 \<or>
     word3 ''aug'' c1 c2 c3 \<or> word3 ''sus'' c1 c2 c3 \<or> word3 ''add'' c1 c2 c3"

text \<open>
  \<open>(?:m|maj|...|\<Delta>)*$\<close>: \<open>test\<close> answers whether some way of choosing alternatives
  reaches the end of the input, so the order in which the backtracking matcher tries them
  does not matter.
\<close>

fun chordTail :: "jstring \<Rightarrow> bool" where
  "chordTail [] = True"
| "chordTail [c1] = unit1 c1"
| "chordTail [c1, c2] = (unit1 c1 \<and> chordTail [c2])"
| "chordTail (c1 # c2 # c3 # cs) =
     ((unit1 c1 \<and> chordTail (c2 # c3 # cs)) \<or> (unit3 c1 c2 c3 \<and> chordTail cs))"

definition isChordLike :: "jstring \<Rightarrow> bool" where
  "isChordLike s =
     (case s of
        [] \<Rightarrow> False
      | c # cs \<Rightarrow>
          isRootLetter c \<and>
          ((case cs of a # rest \<Rightarrow> isAccidental a \<and> chordTail rest | [] \<Rightarrow> False) \<or>
           chordTail cs))"

section \<open>Splitting\<close>

text \<open>
  \<open>input.split(/(\s+)/)\<close>: the text before the next run of white space, the run itself
  (the capture group), and so on; the last element is the text after the last run.
\<close>

function splitSpaces :: "jstring \<Rightarrow> jstring list" where
  "splitSpaces s =
     (let tok = takeWhile (\<lambda>c. \<not> isSpace c) s;
          rest = dropWhile (\<lambda>c. \<not> isSpace c) s
      in if rest = [] then [tok]
         else tok # takeWhile isSpace rest # splitSpaces (dropWhile isSpace rest))"
  by pat_completeness auto
termination
proof (relation "measure length", simp)
  fix s :: jstring and tok rest :: jstring
  assume r: "rest = dropWhile (\<lambda>c. \<not> isSpace c) s" and ne: "rest \<noteq> []"
  from ne have "isSpace (hd rest)"
    unfolding r using hd_dropWhile [of "\<lambda>c. \<not> isSpace c" s] by simp
  with ne have "length (dropWhile isSpace rest) < length rest"
    by (cases rest) (simp_all add: length_dropWhile_le less_Suc_eq_le)
  moreover have "length rest \<le> length s"
    unfolding r by (rule length_dropWhile_le)
  ultimately show "(dropWhile isSpace rest, s) \<in> measure length" by simp
qed

text \<open>\<open>tok.split(/([,\|\(\)\[\]])/)\<close>: each punctuation unit separates, and is kept.\<close>

definition isPunct :: "jchar \<Rightarrow> bool" where
  "isPunct c \<longleftrightarrow> c = 44 \<or> c = 124 \<or> c = 40 \<or> c = 41 \<or> c = 91 \<or> c = 93"

function splitPunct :: "jstring \<Rightarrow> jstring list" where
  "splitPunct s =
     (let piece = takeWhile (\<lambda>c. \<not> isPunct c) s
      in case dropWhile (\<lambda>c. \<not> isPunct c) s of
           [] \<Rightarrow> [piece]
         | c # cs \<Rightarrow> piece # [c] # splitPunct cs)"
  by pat_completeness auto
termination
proof (relation "measure length", simp)
  fix s :: jstring and c :: jchar and cs :: jstring
  assume "dropWhile (\<lambda>c. \<not> isPunct c) s = c # cs"
  then have "Suc (length cs) \<le> length s"
    using length_dropWhile_le [of "\<lambda>c. \<not> isPunct c" s] by simp
  then show "(cs, s) \<in> measure length" by simp
qed

text \<open>\<open>symbol.split("/")\<close>: the separator is dropped.\<close>

function splitSlash :: "jstring \<Rightarrow> jstring list" where
  "splitSlash s =
     (let part = takeWhile (\<lambda>c. c \<noteq> 47) s
      in case dropWhile (\<lambda>c. c \<noteq> 47) s of
           [] \<Rightarrow> [part]
         | c # cs \<Rightarrow> part # splitSlash cs)"
  by pat_completeness auto
termination
proof (relation "measure length", simp)
  fix s :: jstring and c :: jchar and cs :: jstring
  assume "dropWhile (\<lambda>c. c \<noteq> 47) s = c # cs"
  then have "Suc (length cs) \<le> length s"
    using length_dropWhile_le [of "\<lambda>c. c \<noteq> 47" s] by simp
  then show "(cs, s) \<in> measure length" by simp
qed

section \<open>Transposition engine (lib/transpose.ts)\<close>

text \<open>
  \<open>transposeChordSymbol\<close>. \<open>const [top, bass] = symbol.split("/")\<close> takes the first two
  parts (\<open>top'\<close> and \<open>root'\<close> stand for \<open>top\<close> and \<open>root\<close>); a symbol that contains a slash always has them, so the branch for a shorter list
  is never taken.
\<close>

function transposeChordSymbol :: "jstring \<Rightarrow> int \<Rightarrow> bool \<Rightarrow> jstring" where
  "transposeChordSymbol symbol steps preferSharps =
     (if 47 \<in> set symbol then
        (case splitSlash symbol of
           top' # bass # _ \<Rightarrow>
             transposeChordSymbol top' steps preferSharps @ [47] @
             transposeChordSymbol bass steps preferSharps
         | _ \<Rightarrow> symbol)
      else
        (case CHORD_RE symbol of
           None \<Rightarrow> symbol
         | Some (root', tail) \<Rightarrow> transposeNote root' steps preferSharps @ tail))"
  by pat_completeness auto
termination
proof -
  have key: "length t < length symbol \<and> length b < length symbol"
    if sl: "47 \<in> set symbol" and sp: "splitSlash symbol = t # b # more"
    for symbol t b :: jstring and more :: "jstring list"
  proof -
    from sl obtain c cs where d: "dropWhile (\<lambda>c. c \<noteq> 47) symbol = c # cs"
      by (cases "dropWhile (\<lambda>c. c \<noteq> 47) symbol") auto
    have "length (takeWhile (\<lambda>c. c \<noteq> 47) symbol @ dropWhile (\<lambda>c. c \<noteq> 47) symbol)
        = length symbol"
      by simp
    then have len: "length (takeWhile (\<lambda>c. c \<noteq> 47) symbol) + Suc (length cs) = length symbol"
      unfolding length_append d by simp
    from sp d have t: "t = takeWhile (\<lambda>c. c \<noteq> 47) symbol"
      and rest: "splitSlash cs = b # more"
      by (simp_all add: Let_def)
    from rest have "b = takeWhile (\<lambda>c. c \<noteq> 47) cs"
      by (simp add: Let_def split: list.splits)
    then have "length b \<le> length cs"
      by (simp add: length_takeWhile_le)
    with len t show ?thesis by simp
  qed
  show ?thesis
    by (relation "measure (\<lambda>(symbol, steps, preferSharps). length symbol)")
      (auto dest: key)
qed

text \<open>
  \<open>maybeTransposeToken\<close>: \<open>!tok || /^\s+$/.test(tok)\<close> holds for the empty token and
  for a token of white space only. \<open>transposePieces\<close> is the expression
  \<open>tok.split(/([,\|\(\)\[\]])/).map(piece => ...).join("")\<close> of its second branch.
\<close>

definition transposePieces :: "jstring \<Rightarrow> int \<Rightarrow> bool \<Rightarrow> jstring" where
  "transposePieces tok steps preferSharps =
     concat (map (\<lambda>piece.
               if isChordLike piece then transposeChordSymbol piece steps preferSharps
               else piece)
             (splitPunct tok))"

definition maybeTransposeToken :: "jstring \<Rightarrow> int \<Rightarrow> bool \<Rightarrow> jstring" where
  "maybeTransposeToken tok steps preferSharps =
     (if tok = [] \<or> list_all isSpace tok then tok
      else if list_ex isPunct tok \<and> 47 \<notin> set tok then transposePieces tok steps preferSharps
      else if isChordLike tok then transposeChordSymbol tok steps preferSharps
      else tok)"

definition transposeChordText :: "jstring \<Rightarrow> int \<Rightarrow> bool \<Rightarrow> jstring" where
  "transposeChordText input steps preferSharps =
     (let tokens = splitSpaces input
      in concat (map (\<lambda>tok. maybeTransposeToken tok steps preferSharps) tokens))"

section \<open>Capo advisor (lib/capo.ts)\<close>

definition OPEN_SHAPE_KEYS :: "jstring list" where
  "OPEN_SHAPE_KEYS = [js ''C'', js ''G'', js ''D'', js ''A'', js ''E'']"

definition shapesKeyFor :: "jstring \<Rightarrow> int \<Rightarrow> jstring" where
  "shapesKeyFor targetKey capoFret =
     (let preferSharps = preferSharpsForKey targetKey
      in transposeNote targetKey (- capoFret) preferSharps)"

text \<open>\<open>Array.prototype.indexOf\<close>: the first index of the element, or \<open>-1\<close>.\<close>

fun arrayIndexOf :: "'a list \<Rightarrow> 'a \<Rightarrow> int" where
  "arrayIndexOf [] x = - 1"
| "arrayIndexOf (y # ys) x =
     (if y = x then 0
      else (let i = arrayIndexOf ys x in if i < 0 then - 1 else i + 1))"

text \<open>
  \<open>scoreCapo\<close>. The scores are multiples of one half, which the source's numbers
  represent exactly; they are rationals here.
\<close>

definition scoreCapo :: "jstring \<Rightarrow> int \<Rightarrow> rat" where
  "scoreCapo shapesKey capoFret =
     (let score0 = (if shapesKey \<in> set OPEN_SHAPE_KEYS then 100 else 0);
          score1 = (if capoFret \<le> 5 then score0 + of_int (20 - capoFret * 2)
                    else score0 + of_int (max 0 (10 - (capoFret - 5) * 3)));
          biasOrder = [js ''G'', js ''C'', js ''D'', js ''A'', js ''E''];
          bias = of_int (max 0 (5 - max 0 (arrayIndexOf biasOrder shapesKey))) * (1 / 2)
      in score1 + bias)"

text \<open>The dash of the first message is the code unit 8212.\<close>

definition reasonFor :: "jstring \<Rightarrow> int \<Rightarrow> jstring" where
  "reasonFor shapesKey capoFret =
     (if capoFret = 0 \<and> shapesKey \<in> set OPEN_SHAPE_KEYS then
        js ''No capo needed '' @ [8212] @ js '' classic open '' @ shapesKey @ js '' shapes''
      else if shapesKey \<in> set OPEN_SHAPE_KEYS then
        js ''Open '' @ shapesKey @ js '' shapes (easy chord grips)''
      else if capoFret \<le> 2 then js ''Low capo, comfortable reach''
      else js ''Usable option'')"

record CapoSuggestion =
  capoFret :: int
  shapesKey :: jstring
  reason :: jstring
  score :: rat

text \<open>
  \<open>suggestCaposForTargetKey\<close>. \<open>Array.prototype.sort\<close> is stable, and the comparator
  \<open>b.score - a.score\<close> orders by descending score: it is the stable insertion sort on
  the negated score.
\<close>

definition suggestCaposForTargetKey :: "jstring \<Rightarrow> CapoSuggestion list" where
  "suggestCaposForTargetKey targetKey =
     (let suggestions =
            map (\<lambda>fret.
                  let key = shapesKeyFor targetKey fret;
                      sc = scoreCapo key fret
                  in \<lparr>capoFret = fret, shapesKey = key,
                      reason = reasonFor key fret, score = sc\<rparr>)
                [0..11];
          sorted = sort_key (\<lambda>s. - score s) suggestions
      in take 5 sorted)"

section \<open>Voicing catalog (lib/chords.ts)\<close>

record Barre =
  fromString :: int
  toString :: int
  fret :: int

text \<open>
  The string unions of the source: the quality is one of
  \<open>"maj" "min" "7" "maj7" "m7" "sus4" "add9"\<close> (and \<open>"majLike"\<close> as a result of
  \<open>coarseQuality\<close>), the family one of \<open>"open" "barre-e" "barre-a" "alt"\<close>.
\<close>

datatype Quality = Maj | Min | Dom7 | Maj7 | Min7 | Sus4 | Add9 | MajLike

datatype Family = Open | BarreE | BarreA | Alt

record Shape =
  name :: jstring
  shortName :: "jstring option"
  positions :: "int list"
  baseFret :: int
  barres :: "Barre list option"
  quality :: "Quality option"
  family :: "Family option"

text \<open>
  Every entry of \<open>OPEN_SHAPES\<close> has the form
  \<open>{ name, shortName, positions, baseFret: 1, quality, family: "open" }\<close>.
\<close>

definition openShape :: "string \<Rightarrow> string \<Rightarrow> int list \<Rightarrow> Quality \<Rightarrow> Shape" where
  "openShape n sn ps q =
     \<lparr>name = js n, shortName = Some (js sn), positions = ps, baseFret = 1,
      barres = None, quality = Some q, family = Some Open\<rparr>"

definition OPEN_SHAPES :: "(jstring \<times> Shape) list" where
  "OPEN_SHAPES =
     [
      (js ''C'', openShape ''C'' ''C'' [- 1, 3, 2, 0, 1, 0] Maj),
      (js ''D'', openShape ''D'' ''D'' [- 1, - 1, 0, 2, 3, 2] Maj),
      (js ''E'', openShape ''E'' ''E'' [0, 2, 2, 1, 0, 0] Maj),
      (js ''G'', openShape ''G'' ''G'' [3, 2, 0, 0, 0, 3] Maj),
      (js ''A'', openShape ''A'' ''A'' [- 1, 0, 2, 2, 2, 0] Maj),
      (js ''F'', openShape ''F (lite)'' ''F'' [- 1, - 1, 3, 2, 1, 1] Maj),
      (js ''Cmaj7'', openShape ''Cmaj7'' ''Cmaj7'' [- 1, 3, 2, 0, 0, 0] Maj7),
      (js ''Amaj7'', openShape ''Amaj7'' ''Amaj7'' [- 1, 0, 2, 1, 2, 0] Maj7),
      (js ''Dmaj7'', openShape ''Dmaj7'' ''Dmaj7'' [- 1, - 1, 0, 2, 2, 2] Maj7),
      (js ''Fmaj7'', openShape ''Fmaj7'' ''Fmaj7'' [- 1, - 1, 3, 2, 1, 0] Maj7),
      (js ''Am'', openShape ''Am'' ''Am'' [- 1, 0, 2, 2, 1, 0] Min),
      (js ''Dm'', openShape ''Dm'' ''Dm'' [- 1, - 1, 0, 2, 3, 1] Min),
      (js ''Em'', openShape ''Em'' ''Em'' [0, 2, 2, 0, 0, 0] Min),
      (js ''Am7'', openShape ''Am7'' ''Am7'' [- 1, 0, 2, 0, 1, 0] Min7),
      (js ''Em7'', openShape ''Em7'' ''Em7'' [0, 2, 2, 0, 3, 0] Min7),
      (js ''C7'', openShape ''C7'' ''C7'' [- 1, 3, 2, 3, 1, 0] Dom7),
      (js ''D7'', openShape ''D7'' ''D7'' [- 1, - 1, 0, 2, 1, 2] Dom7),
      (js ''E7'', openShape ''E7'' ''E7'' [0, 2, 0, 1, 0, 0] Dom7),
      (js ''G7'', openShape ''G7'' ''G7'' [3, 2, 0, 0, 0, 1] Dom7),
      (js ''A7'', openShape ''A7'' ''A7'' [- 1, 0, 2, 0, 2, 0] Dom7),
      (js ''Asus4'', openShape ''Asus4'' ''Asus4'' [- 1, 0, 2, 2, 3, 0] Sus4),
      (js ''Dsus4'', openShape ''Dsus4'' ''Dsus4'' [- 1, - 1, 0, 2, 3, 3] Sus4),
      (js ''Cadd9'', openShape ''Cadd9'' ''Cadd9'' [- 1, 3, 2, 0, 3, 3] Add9),
      (js ''Gadd9'', openShape ''Gadd9'' ''Gadd9'' [3, 2, 0, 0, 3, 0] Add9)
     ]"

definition NOTE_ORDER_SHARPS :: "jstring list" where
  "NOTE_ORDER_SHARPS = [js ''C'', js ''C#'', js ''D'', js ''D#'', js ''E'', js ''F'',
                        js ''F#'', js ''G'', js ''G#'', js ''A'', js ''A#'', js ''B'']"

datatype js_error = BadNote jstring

text \<open>\<open>toSharp\<close> throws \<open>Error("Bad note: ...")\<close> on a note outside the sharp order.\<close>

definition toSharp :: "jstring \<Rightarrow> js_error + jstring" where
  "toSharp note =
     (let n = replaceFirst 9837 98 (replaceFirst 9839 35 note);
          enh = map_of
            [(js ''B#'', js ''C''), (js ''Cb'', js ''B''),
             (js ''E#'', js ''F''), (js ''Fb'', js ''E''),
             (js ''Db'', js ''C#''), (js ''Eb'', js ''D#''), (js ''Gb'', js ''F#''),
             (js ''Ab'', js ''G#''), (js ''Bb'', js ''A#'')];
          sharped = (case enh n of Some v \<Rightarrow> v | None \<Rightarrow> n)
      in if sharped \<notin> set NOTE_ORDER_SHARPS then Inl (BadNote note) else Inr sharped)"

definition semitoneDistance :: "jstring \<Rightarrow> jstring \<Rightarrow> int" where
  "semitoneDistance openNote target =
     (let a = arrayIndexOf NOTE_ORDER_SHARPS openNote;
          b = arrayIndexOf NOTE_ORDER_SHARPS target
      in (b - a + 12) smod 12)"

definition chooseComfortableBaseFret :: "int \<Rightarrow> int" where
  "chooseComfortableBaseFret f =
     (if f = 0 then 12
      else if f \<ge> 1 \<and> f \<le> 5 then f
      else if f \<ge> 6 \<and> f \<le> 9 then f
      else max 1 (min 12 f))"

definition baseFretFor_Eshape :: "jstring \<Rightarrow> int" where
  "baseFretFor_Eshape rt = (let f = semitoneDistance (js ''E'') rt in chooseComfortableBaseFret f)"

definition baseFretFor_Ashape :: "jstring \<Rightarrow> int" where
  "baseFretFor_Ashape rt = (let f = semitoneDistance (js ''A'') rt in chooseComfortableBaseFret f)"

record Template =
  tpl_positions :: "int list"
  tpl_barre :: Barre
  tpl_family :: Family

definition tplE_major :: Template where
  "tplE_major = \<lparr>tpl_positions = [1, 3, 3, 2, 1, 1],
     tpl_barre = \<lparr>fromString = 0, toString = 5, fret = 1\<rparr>, tpl_family = BarreE\<rparr>"

definition tplE_minor :: Template where
  "tplE_minor = \<lparr>tpl_positions = [1, 3, 3, 1, 1, 1],
     tpl_barre = \<lparr>fromString = 0, toString = 5, fret = 1\<rparr>, tpl_family = BarreE\<rparr>"

definition tplE_7 :: Template where
  "tplE_7 = \<lparr>tpl_positions = [1, 3, 1, 2, 1, 1],
     tpl_barre = \<lparr>fromString = 0, toString = 5, fret = 1\<rparr>, tpl_family = BarreE\<rparr>"

definition tplA_major :: Template where
  "tplA_major = \<lparr>tpl_positions = [- 1, 1, 3, 3, 3, 1],
     tpl_barre = \<lparr>fromString = 1, toString = 5, fret = 1\<rparr>, tpl_family = BarreA\<rparr>"

definition tplA_minor :: Template where
  "tplA_minor = \<lparr>tpl_positions = [- 1, 1, 3, 3, 2, 1],
     tpl_barre = \<lparr>fromString = 1, toString = 5, fret = 1\<rparr>, tpl_family = BarreA\<rparr>"

definition tplA_7 :: Template where
  "tplA_7 = \<lparr>tpl_positions = [- 1, 1, 3, 1, 3, 1],
     tpl_barre = \<lparr>fromString = 1, toString = 5, fret = 1\<rparr>, tpl_family = BarreA\<rparr>"

datatype System = SysE | SysA

text \<open>The decimal text of a number, for the template literal \<open>@${baseFret}\<close>.\<close>

fun showNat :: "nat \<Rightarrow> jstring" where
  "showNat n = (if n < 10 then [48 + n] else showNat (n div 10) @ [48 + n mod 10])"

definition showInt :: "int \<Rightarrow> jstring" where
  "showInt i = (if i < 0 then 45 # showNat (nat (- i)) else showNat (nat i))"

text \<open>\<open>makeBarre\<close>; its quality is one of \<open>"maj"\<close>, \<open>"min"\<close>, \<open>"7"\<close>.\<close>

definition makeBarre :: "jstring \<Rightarrow> Quality \<Rightarrow> System \<Rightarrow> int \<Rightarrow> Shape" where
  "makeBarre rt q system base =
     (let tpl =
            (if system = SysE
             then (if q = Maj then tplE_major else if q = Min then tplE_minor else tplE_7)
             else (if q = Maj then tplA_major else if q = Min then tplA_minor else tplA_7));
          fam = tpl_family tpl;
          bs = [tpl_barre tpl];
          ps = tpl_positions tpl;
          suffix = (if q = Min then js ''m'' else if q = Dom7 then js ''7'' else []);
          nm = rt @ suffix @ js '' ('' @ (if system = SysE then js ''E'' else js ''A'') @
               js ''-shape barre @'' @ showInt base @ js '')''
      in \<lparr>name = nm, shortName = Some (rt @ suffix), positions = ps, baseFret = base,
          barres = Some bs, quality = Some q, family = Some fam\<rparr>)"

text \<open>
  \<open>generateBarresFor\<close>; \<open>list.sort((x, y) => x.baseFret - y.baseFret)\<close> is the stable
  sort by ascending \<open>baseFret\<close>.
\<close>

definition generateBarresFor :: "jstring \<Rightarrow> Quality \<Rightarrow> Shape list" where
  "generateBarresFor rt q =
     (let eBase = baseFretFor_Eshape rt;
          list1 = (if eBase \<ge> 1 \<and> eBase \<le> 12 then [makeBarre rt q SysE eBase] else []);
          eAlt = eBase + 12;
          list2 = (if eAlt \<ge> 13 \<and> eAlt \<le> 17 then list1 @ [makeBarre rt q SysE eAlt] else list1);
          aBase = baseFretFor_Ashape rt;
          list3 = (if aBase \<ge> 1 \<and> aBase \<le> 12 then list2 @ [makeBarre rt q SysA aBase] else list2);
          aAlt = aBase + 12;
          list4 = (if aAlt \<ge> 13 \<and> aAlt \<le> 17 then list3 @ [makeBarre rt q SysA aAlt] else list3)
      in sort_key baseFret list4)"

definition normalizeEnharmonic :: "jstring \<Rightarrow> js_error + jstring" where
  "normalizeEnharmonic rt = toSharp rt"

definition isLineTerminator :: "jchar \<Rightarrow> bool" where
  "isLineTerminator c \<longleftrightarrow> c = 10 \<or> c = 13 \<or> c = 8232 \<or> c = 8233"

text \<open>
  \<open>toLowerCase\<close>. On ASCII it is the usual shift; the Kelvin sign (8490) becomes \<open>k\<close> and
  the dotted capital I (304) becomes \<open>i\<close> with a combining dot (775), the only units that
  lower-case into ASCII. Every other unit above 127 becomes units above 127 in JavaScript
  and is left as it is here, which changes no test that \<open>coarseQuality\<close> makes; the tail
  that \<open>parseChordSymbol\<close> returns then has such a unit as the input has it, where
  JavaScript has its lower-case form (the small delta 948 for the capital delta 916).
\<close>

definition toLowerCase1 :: "jchar \<Rightarrow> jstring" where
  "toLowerCase1 c =
     (if 65 \<le> c \<and> c \<le> 90 then [c + 32]
      else if c = 8490 then [107]
      else if c = 304 then [105, 775]
      else [c])"

definition toLowerCase :: "jstring \<Rightarrow> jstring" where
  "toLowerCase s = concat (map toLowerCase1 s)"

text \<open>
  \<open>parseChordSymbol\<close>, with the pattern \<open>/^([A-G](?:#|b)?)(.*)$/i\<close>: the dot matches
  every unit but a line terminator. An exception of \<open>toSharp\<close> passes through.
\<close>

definition parseChordSymbol :: "jstring \<Rightarrow> js_error + (jstring \<times> jstring) option" where
  "parseChordSymbol symbol =
     (case matchRootTail (\<lambda>x. \<not> isLineTerminator x) symbol of
        None \<Rightarrow> Inr None
      | Some (m1, m2) \<Rightarrow>
          (case normalizeEnharmonic m1 of
             Inl e \<Rightarrow> Inl e
           | Inr rt \<Rightarrow> Inr (Some (rt, toLowerCase m2))))"

text \<open>\<open>String.prototype.includes\<close>.\<close>

fun includesStr :: "jstring \<Rightarrow> jstring \<Rightarrow> bool" where
  "includesStr [] pat = (pat = [])"
| "includesStr (c # cs) pat = (take (length pat) (c # cs) = pat \<or> includesStr cs pat)"

definition isWordChar :: "jchar \<Rightarrow> bool" where
  "isWordChar c \<longleftrightarrow>
     (65 \<le> c \<and> c \<le> 90) \<or> (97 \<le> c \<and> c \<le> 122) \<or> isDigit c \<or> c = 95"

text \<open>
  \<open>/\bm(?!aj)/.test(tail)\<close>: some \<open>m\<close> that follows the start or a unit outside \<open>\w\<close>
  and is not followed by \<open>aj\<close>. The first argument says whether the unit before is in
  \<open>\w\<close>.
\<close>

fun matchMinorM :: "bool \<Rightarrow> jstring \<Rightarrow> bool" where
  "matchMinorM prevWord [] = False"
| "matchMinorM prevWord (c # cs) =
     ((c = 109 \<and> \<not> prevWord \<and> take 2 cs \<noteq> js ''aj'') \<or> matchMinorM (isWordChar c) cs)"

definition coarseQuality :: "jstring \<Rightarrow> Quality" where
  "coarseQuality tail =
     (if includesStr tail (js ''maj7'') then Maj7
      else if matchMinorM False tail \<and> includesStr tail (js ''7'') then Min7
      else if matchMinorM False tail then Min
      else if includesStr tail (js ''7'') then Dom7
      else if includesStr tail (js ''sus4'') then Sus4
      else if includesStr tail (js ''add9'') then Add9
      else MajLike)"

text \<open>
  The filter of \<open>findVoicingsFor\<close> keeps the first shape of each key
  \<open>`${v.family}|${v.baseFret}|${v.name}`\<close>. Neither the family nor the number contains a
  bar, so two keys are equal exactly when the three components are.
\<close>

fun uniqueBy :: "('a \<Rightarrow> 'k) \<Rightarrow> 'k list \<Rightarrow> 'a list \<Rightarrow> 'a list" where
  "uniqueBy key seen [] = []"
| "uniqueBy key seen (v # vs) =
     (if key v \<in> set seen then uniqueBy key seen vs
      else v # uniqueBy key (key v # seen) vs)"

text \<open>
  \<open>findVoicingsFor\<close>. The comparator of the last sort puts the open shapes first and
  orders by \<open>baseFret\<close> otherwise: the stable sort on the pair (open or not, baseFret),
  ordered lexicographically.
\<close>

definition findVoicingsFor :: "jstring \<Rightarrow> js_error + Shape list" where
  "findVoicingsFor symbol =
     (case parseChordSymbol symbol of
        Inl e \<Rightarrow> Inl e
      | Inr None \<Rightarrow> Inr []
      | Inr (Some (rt, tail)) \<Rightarrow>
          (let q = coarseQuality tail;
               openKey =
                 (if q = Min then rt @ js ''m''
                  else if q = Dom7 then rt @ js ''7''
                  else if q = Maj7 then rt @ js ''maj7''
                  else if q = Min7 then rt @ js ''m7''
                  else if q = Sus4 then rt @ js ''sus4''
                  else if q = Add9 then rt @ js ''add9''
                  else rt);
               voicings1 =
                 (case map_of OPEN_SHAPES openKey of
                    Some sh \<Rightarrow> [sh]
                  | None \<Rightarrow>
                      (case map_of OPEN_SHAPES rt of Some sh \<Rightarrow> [sh] | None \<Rightarrow> []));
               voicings2 =
                 (if q = Min \<or> q = Dom7 \<or> q = MajLike
                  then voicings1 @
                    generateBarresFor rt (if q = Min then Min else if q = Dom7 then Dom7 else Maj)
                  else voicings1 @ generateBarresFor rt (if q = Min7 then Min else Maj));
               unique = uniqueBy (\<lambda>v. (family v, baseFret v, name v)) [] voicings2
           in Inr (sort_key
                     (\<lambda>v. (if family v = Some Open then 0 else 1 :: int, baseFret v))
                     unique)))"

section \<open>The chord-likeness test in the words of the specification\<close>

text \<open>
  The specification describes \<open>looksLikeChord\<close> as: a letter A to G, optionally followed
  by \<open>#\<close> or \<open>b\<close>, followed by zero or more items of a fixed permitted set. The predicate
  below follows these words; its flag says whether texts are compared case-sensitively
  or through \<open>canonicalize\<close>.
\<close>

definition PERMITTED :: "jstring list" where
  "PERMITTED =
     map js [''m'', ''maj'', ''min'', ''dim'', ''aug'', ''sus'', ''add'', ''+'', ''-'', ''/'',
             ''#'', ''b'']
     @ map (\<lambda>digit. [digit]) [48, 49, 50, 51, 52, 53, 54, 55, 56, 57]
     @ map (\<lambda>letter. [letter]) [65, 66, 67, 68, 69, 70, 71]
     @ [[176], [916]]"

definition sameText :: "bool \<Rightarrow> jstring \<Rightarrow> jstring \<Rightarrow> bool" where
  "sameText caseSensitive a b =
     (if caseSensitive then a = b else map canonicalize a = map canonicalize b)"

inductive permittedSeq :: "bool \<Rightarrow> jstring \<Rightarrow> bool" for caseSensitive :: bool where
  permittedSeq_Nil: "permittedSeq caseSensitive []"
| permittedSeq_item:
    "item \<in> set PERMITTED \<Longrightarrow> sameText caseSensitive item u \<Longrightarrow>
     permittedSeq caseSensitive rest \<Longrightarrow> permittedSeq caseSensitive (u @ rest)"

definition rootLetterSpec :: "bool \<Rightarrow> jchar \<Rightarrow> bool" where
  "rootLetterSpec caseSensitive r =
     list_ex (\<lambda>l. sameText caseSensitive [l] [r]) [65, 66, 67, 68, 69, 70, 71]"

definition accidentalSpec :: "bool \<Rightarrow> jstring \<Rightarrow> bool" where
  "accidentalSpec caseSensitive acc \<longleftrightarrow>
     acc = [] \<or> sameText caseSensitive (js ''#'') acc \<or> sameText caseSensitive (js ''b'') acc"

definition looksLikeChordSpec :: "bool \<Rightarrow> jstring \<Rightarrow> bool" where
  "looksLikeChordSpec caseSensitive tok =
     (case tok of
        [] \<Rightarrow> False
      | r # cs \<Rightarrow>
          rootLetterSpec caseSensitive r \<and>
          (\<exists>acc rest. cs = acc @ rest \<and> accidentalSpec caseSensitive acc \<and>
             permittedSeq caseSensitive rest))"

section \<open>Auxiliary predicates\<close>

text \<open>The shape of the entries of \<open>SHARPS\<close> and \<open>FLATS\<close>: a capital letter A to G,
  alone or followed by \<open>#\<close> or \<open>b\<close>.\<close>

definition spelled :: "jstring \<Rightarrow> bool" where
  "spelled r \<longleftrightarrow>
     (case r of
        [x] \<Rightarrow> 65 \<le> x \<and> x \<le> 71
      | [x, a] \<Rightarrow> 65 \<le> x \<and> x \<le> 71 \<and> (a = 35 \<or> a = 98)
      | _ \<Rightarrow> False)"

text \<open>The units that a transposition can put into a symbol: the letters A to G, \<open>#\<close>,
  \<open>b\<close>, and the slash that joins the two halves.\<close>

definition noteChar :: "jchar \<Rightarrow> bool" where
  "noteChar c \<longleftrightarrow> c = 35 \<or> c = 47 \<or> c = 98 \<or> (65 \<le> c \<and> c \<le> 71)"

text \<open>The suggestion that the loop of \<open>suggestCaposForTargetKey\<close> pushes for one fret.\<close>

definition capoCandidate :: "jstring \<Rightarrow> int \<Rightarrow> CapoSuggestion" where
  "capoCandidate targetKey f =
     \<lparr>capoFret = f, shapesKey = shapesKeyFor targetKey f,
      reason = reasonFor (shapesKeyFor targetKey f) f,
      score = scoreCapo (shapesKeyFor targetKey f) f\<rparr>"






section \<open>Evaluation and arithmetic helpers\<close>

declare splitSpaces.simps [simp del]
declare splitPunct.simps [simp del]
declare splitSlash.simps [simp del]
declare transposeChordSymbol.simps [simp del]
declare showNat.simps [simp del]
declare ulpFrom.simps [simp del]

lemma smod_nonneg: "0 \<le> y \<Longrightarrow> y smod 12 = y mod (12::int)"
  by (cases "y = 0") (simp_all add: signed_modulo_int_def)

lemma jsmod12: "((x smod 12) + 12) smod 12 = x mod (12::int)"
proof -
  have "x smod 12 = x mod 12 \<or> x smod 12 = x mod 12 - 12"
    by (simp add: signed_modulo_int_eq_modulo_int) blast
  then show ?thesis
  proof
    assume a: "x smod 12 = x mod 12"
    have "(x mod 12 + 12) smod 12 = (x mod 12 + 12) mod 12"
      by (rule smod_nonneg) simp
    with a show ?thesis by simp
  next
    assume a: "x smod 12 = x mod 12 - 12"
    have "(x mod 12) smod 12 = (x mod 12) mod 12"
      by (rule smod_nonneg) simp
    with a show ?thesis by simp
  qed
qed

lemma ulpFrom_small: "m < 9007199254740992 \<Longrightarrow> ulpFrom m 1 = 1"
  by (subst ulpFrom.simps) simp


lemma roundToDouble_small: "\<bar>x\<bar> < 9007199254740992 \<Longrightarrow> roundToDouble x = x"
proof -
  assume "\<bar>x\<bar> < 9007199254740992"
  then have "nat \<bar>x\<bar> < 9007199254740992" by simp
  from ulpFrom_small [OF this] show ?thesis
    by (simp add: roundToDouble_def)
qed


lemma chooseSpelling_eq:
  "chooseSpelling k p = (if p then SHARPS else FLATS) ! nat (k mod 12)"
  by (simp add: chooseSpelling_def jsmod12)

lemma ENHARMONIC_MAP_range: "ENHARMONIC_MAP n = Some i \<Longrightarrow> 0 \<le> i \<and> i < 12"
  unfolding ENHARMONIC_MAP_def map_of.simps fst_conv snd_conv
  by (simp split: if_splits)

lemma normNote_indexOf:
  "normNote raw = Some n \<Longrightarrow> \<exists>i. indexOf n = Some i \<and> 0 \<le> i \<and> i < 12"
proof -
  assume a: "normNote raw = Some n"
  then have "ENHARMONIC_MAP n \<noteq> None"
    unfolding normNote_def Let_def by (simp split: if_splits)
  then obtain i where "ENHARMONIC_MAP n = Some i" by blast
  with ENHARMONIC_MAP_range [OF this] show ?thesis
    by (simp add: indexOf_def)
qed

lemma ENHARMONIC_MAP_num:
  "ENHARMONIC_MAP = map_of
     [([67], 0), ([66, 35], 0), ([67, 35], 1), ([68, 98], 1), ([68], 2),
      ([68, 35], 3), ([69, 98], 3), ([69], 4), ([70, 98], 4), ([70], 5), ([69, 35], 5),
      ([70, 35], 6), ([71, 98], 6), ([71], 7), ([71, 35], 8), ([65, 98], 8), ([65], 9),
      ([65, 35], 10), ([66, 98], 10), ([66], 11), ([67, 98], 11)]"
  by (simp add: ENHARMONIC_MAP_def js_def)

lemma SHARPS_num:
  "SHARPS = [[67], [67, 35], [68], [68, 35], [69], [70], [70, 35], [71], [71, 35],
             [65], [65, 35], [66]]"
  by (simp add: SHARPS_def js_def)

lemma FLATS_num:
  "FLATS = [[67], [68, 98], [68], [69, 98], [69], [70], [71, 98], [71], [65, 98],
            [65], [66, 98], [66]]"
  by (simp add: FLATS_def js_def)

lemmas normNote_eval = normNote_def trim_def isSpace_def toUpperCase1_def ENHARMONIC_MAP_num

lemma SHARPS_recognized: "list_all (\<lambda>k. normNote k = Some k) SHARPS"
  by (simp add: SHARPS_num normNote_eval)

lemma FLATS_recognized: "list_all (\<lambda>k. normNote k = Some k) FLATS"
  by (simp add: FLATS_num normNote_eval)

lemma SHARPS_index: "map indexOf SHARPS = map Some [0, 1, 2, 3, 4, 5, 6, 7, 8, 9, 10, 11]"
  by (simp add: SHARPS_num indexOf_def ENHARMONIC_MAP_num)

lemma FLATS_index: "map indexOf FLATS = map Some [0, 1, 2, 3, 4, 5, 6, 7, 8, 9, 10, 11]"
  by (simp add: FLATS_num indexOf_def ENHARMONIC_MAP_num)

lemma int_below_12:
  "0 \<le> k \<Longrightarrow> k < 12 \<Longrightarrow> k \<in> {0, 1, 2, 3, 4, 5, 6, 7, 8, 9, 10, 11 :: int}"
  by simp presburger

lemma nth_twelve:
  assumes "0 \<le> k" "k < 12"
  shows "[0, 1, 2, 3, 4, 5, 6, 7, 8, 9, 10, 11 :: int] ! nat k = k"
  using int_below_12 [OF assms] by (elim insertE emptyE) simp_all

lemma table_nth:
  assumes idx: "map indexOf tbl = map Some [0, 1, 2, 3, 4, 5, 6, 7, 8, 9, 10, 11]"
    and rec: "list_all (\<lambda>k. normNote k = Some k) tbl"
    and k: "0 \<le> k" "k < 12"
  shows "normNote (tbl ! nat k) = Some (tbl ! nat k) \<and> indexOf (tbl ! nat k) = Some k"
proof -
  from idx have "length (map indexOf tbl) = 12" by simp
  then have len: "length tbl = 12" by simp
  with k have n: "nat k < length tbl" by simp
  from rec n have r: "normNote (tbl ! nat k) = Some (tbl ! nat k)"
    unfolding list_all_length by blast
  from n have "indexOf (tbl ! nat k) = map indexOf tbl ! nat k" by simp
  also have "\<dots> = Some ([0, 1, 2, 3, 4, 5, 6, 7, 8, 9, 10, 11] ! nat k)"
    unfolding idx using n len by (intro nth_map) simp
  finally show ?thesis using r nth_twelve [OF k] by simp
qed

lemma spelling_recognized:
  assumes "0 \<le> k" "k < 12"
  shows "normNote (chooseSpelling k p) = Some (chooseSpelling k p)"
    and "indexOf (chooseSpelling k p) = Some k"
  using assms table_nth [OF SHARPS_index SHARPS_recognized assms]
    table_nth [OF FLATS_index FLATS_recognized assms]
  by (simp_all add: chooseSpelling_eq)

lemma transposeNote_recognized:
  assumes "normNote n = Some k" "indexOf k = Some i"
  shows "transposeNote n s p = chooseSpelling (roundToDouble (i + s) mod 12) p"
  using assms by (simp add: transposeNote_def jsmod12)

lemma pitchClass_transposeNote:
  assumes "pitchClass n = Some i"
  shows "pitchClass (transposeNote n s p) = Some (roundToDouble (i + s) mod 12)"
proof -
  from assms obtain k where k: "normNote n = Some k" "indexOf k = Some i"
    by (auto simp: pitchClass_def split: option.splits)
  have t: "transposeNote n s p = chooseSpelling (roundToDouble (i + s) mod 12) p"
    by (rule transposeNote_recognized [OF k])
  have "0 \<le> roundToDouble (i + s) mod 12" "roundToDouble (i + s) mod 12 < 12" by simp_all
  from spelling_recognized [OF this, of p] t show ?thesis
    by (simp add: pitchClass_def)
qed

lemmas char_eval = isSpace_def isPunct_def canonicalize_def ci_def isRootLetter_def
  isAccidental_def isDigit_def unit1_def unit3_def word3_def

lemmas text_eval = js_def char_eval matchRootTail_def CHORD_RE_def isChordLike_def
  splitSpaces.simps splitPunct.simps splitSlash.simps transposeChordSymbol.simps
  maybeTransposeToken_def transposePieces_def transposeChordText_def transposeNote_def
  normNote_def trim_def toUpperCase1_def ENHARMONIC_MAP_num
  indexOf_def chooseSpelling_eq SHARPS_num FLATS_num jsmod12 signed_modulo_int_def Let_def
  roundToDouble_small

section \<open>Transposing by zero (C10)\<close>

text \<open>
  C10. For every recognized note spelling \<open>n\<close> and each value of \<open>preferSharps\<close>,
  \<open>transposeNote(n, 0, p)\<close> is the canonical spelling of the pitch class of \<open>n\<close> under
  that preference (the entry of \<open>SHARPS\<close> or \<open>FLATS\<close> at that index), not necessarily
  \<open>n\<close> itself: \<open>transposeNote("Db", 0, true)\<close> is \<open>"C#"\<close>, and so \<open>transposeChordText\<close>
  with zero steps turns the chord token \<open>Db\<close> into \<open>C#\<close>.
\<close>

theorem transposeNote_zero_canonical:
  "(normNote n = Some k \<longrightarrow>
      (\<exists>idx. indexOf k = Some idx \<and> 0 \<le> idx \<and> idx < 12 \<and>
         transposeNote n 0 p = chooseSpelling idx p \<and>
         chooseSpelling idx p = (if p then SHARPS else FLATS) ! nat idx \<and>
         pitchClass (transposeNote n 0 p) = Some idx)) \<and>
   transposeNote (js ''Db'') 0 True = js ''C#'' \<and>
   transposeChordText (js ''Db'') 0 True = js ''C#'' \<and>
   js ''C#'' \<noteq> js ''Db''"
proof (intro conjI impI)
  assume k: "normNote n = Some k"
  from normNote_indexOf [OF k] obtain idx
    where idx: "indexOf k = Some idx" "0 \<le> idx" "idx < 12" by blast
  from idx have m: "roundToDouble (idx + 0) mod 12 = idx"
    by (simp add: roundToDouble_small)
  have t: "transposeNote n 0 p = chooseSpelling idx p"
    using transposeNote_recognized [OF k idx(1), of 0 p] m by simp
  have c: "chooseSpelling idx p = (if p then SHARPS else FLATS) ! nat idx"
    using idx by (simp add: chooseSpelling_eq)
  have "pitchClass n = Some idx"
    using k idx by (simp add: pitchClass_def)
  from pitchClass_transposeNote [OF this, of 0 p] m
  have "pitchClass (transposeNote n 0 p) = Some idx" by simp
  with idx t c
  show "\<exists>idx. indexOf k = Some idx \<and> 0 \<le> idx \<and> idx < 12 \<and>
         transposeNote n 0 p = chooseSpelling idx p \<and>
         chooseSpelling idx p = (if p then SHARPS else FLATS) ! nat idx \<and>
         pitchClass (transposeNote n 0 p) = Some idx"
    by blast
next
  show "transposeNote (js ''Db'') 0 True = js ''C#''"
    by (simp add: text_eval)
next
  show "transposeChordText (js ''Db'') 0 True = js ''C#''"
    by (simp add: text_eval)
next
  show "js ''C#'' \<noteq> js ''Db''"
    by (simp add: js_def)
qed

theorem transposeNote_zero_canonical_witness:
  "normNote (js ''Db'') = Some (js ''Db'') \<and> indexOf (js ''Db'') = Some 1 \<and>
   transposeNote (js ''Db'') 0 True = chooseSpelling 1 True \<and>
   chooseSpelling 1 True = js ''C#'' \<and>
   pitchClass (transposeNote (js ''Db'') 0 True) = Some 1"
proof -
  have h: "normNote (js ''Db'') = Some (js ''Db'')"
    by (simp add: js_def normNote_eval)
  have i: "indexOf (js ''Db'') = Some 1"
    by (simp add: js_def indexOf_def ENHARMONIC_MAP_num)
  from transposeNote_zero_canonical [of "js ''Db''" "js ''Db''" True] h
  obtain idx where "indexOf (js ''Db'') = Some idx"
    "transposeNote (js ''Db'') 0 True = chooseSpelling idx True"
    "chooseSpelling idx True = (if True then SHARPS else FLATS) ! nat idx"
    "pitchClass (transposeNote (js ''Db'') 0 True) = Some idx"
    by blast
  with h i show ?thesis
    by (simp add: SHARPS_num js_def)
qed

section \<open>Roots matched by the patterns\<close>

lemma isRootLetter_cases:
  "isRootLetter c \<Longrightarrow>
     c \<in> {65, 66, 67, 68, 69, 70, 71, 97, 98, 99, 100, 101, 102, 103}"
  unfolding isRootLetter_def canonicalize_def
  by (simp split: if_splits) presburger+

lemma isAccidental_cases: "isAccidental a \<Longrightarrow> a = 35 \<or> a = 98 \<or> a = 66"
  unfolding isAccidental_def ci_def canonicalize_def
  by (simp split: if_splits) presburger

lemma normNote_root1:
  assumes "isRootLetter c"
  shows "normNote [c] = Some [canonicalize c]"
  using isRootLetter_cases [OF assms]
  by (elim insertE emptyE) (simp_all add: normNote_eval canonicalize_def)

lemma normNote_root2:
  assumes "isRootLetter c" "isAccidental a"
  shows "normNote [c, a] = Some (canonicalize c # (if a = 66 then [] else [a]))"
  using isRootLetter_cases [OF assms(1)] isAccidental_cases [OF assms(2)]
  by (elim insertE emptyE disjE) (simp_all add: normNote_eval canonicalize_def)

lemma matchRootTail_Some:
  assumes "matchRootTail T s = Some (r, tail)"
  shows "s = r @ tail \<and> list_all T tail \<and>
         (\<exists>c. isRootLetter c \<and>
            ((r = [c] \<and> (tail = [] \<or> \<not> isAccidental (hd tail))) \<or>
             (\<exists>a. isAccidental a \<and> r = [c, a])))"
  using assms unfolding matchRootTail_def
  by (auto split: list.splits if_splits option.splits)



lemma root_recognized:
  assumes "matchRootTail T s = Some (r, tail)"
  shows "\<exists>i. pitchClass r = Some i \<and> 0 \<le> i \<and> i < 12"
proof -
  from matchRootTail_Some [OF assms] obtain c
    where c: "isRootLetter c"
      and r: "r = [c] \<or> (\<exists>a. isAccidental a \<and> r = [c, a])"
    by blast
  from r obtain n where "normNote r = Some n"
    using normNote_root1 [OF c] normNote_root2 [OF c] by auto
  with normNote_indexOf [OF this] show ?thesis
    by (simp add: pitchClass_def)
qed

lemma transposeChordSymbol_noslash:
  "47 \<notin> set symb \<Longrightarrow>
     transposeChordSymbol symb s p =
       (case CHORD_RE symb of None \<Rightarrow> symb | Some (r, tail) \<Rightarrow> transposeNote r s p @ tail)"
  by (subst transposeChordSymbol.simps) simp

lemma spelled_tables: "list_all spelled SHARPS" "list_all spelled FLATS"
  by (simp_all add: SHARPS_num FLATS_num spelled_def)

lemma spelled_chooseSpelling: "spelled (chooseSpelling k p)"
proof -
  have "nat (k mod 12) < 12" by simp
  then have "nat (k mod 12) < length SHARPS" "nat (k mod 12) < length FLATS"
    by (simp_all add: SHARPS_num FLATS_num)
  with spelled_tables show ?thesis
    unfolding chooseSpelling_eq list_all_length by simp
qed




section \<open>Round trip of notes\<close>


section \<open>Splitting and joining\<close>

lemma splitSpaces_last:
  assumes "dropWhile (\<lambda>c. \<not> isSpace c) s = []"
  shows "splitSpaces s = [s]"
proof -
  from assms have "takeWhile (\<lambda>c. \<not> isSpace c) s = s"
    by (metis append_Nil2 takeWhile_dropWhile_id)
  with assms show ?thesis
    by (subst splitSpaces.simps) (simp only: Let_def refl if_True)
qed

lemma splitSpaces_more:
  assumes "dropWhile (\<lambda>c. \<not> isSpace c) s = rest" "rest \<noteq> []"
  shows "splitSpaces s =
           takeWhile (\<lambda>c. \<not> isSpace c) s # takeWhile isSpace rest #
           splitSpaces (dropWhile isSpace rest)"
  using assms by (subst splitSpaces.simps) (simp only: Let_def if_False)

lemma splitPunct_last:
  assumes "dropWhile (\<lambda>c. \<not> isPunct c) s = []"
  shows "splitPunct s = [s]"
proof -
  from assms have "takeWhile (\<lambda>c. \<not> isPunct c) s = s"
    by (metis append_Nil2 takeWhile_dropWhile_id)
  with assms show ?thesis
    by (subst splitPunct.simps) (simp only: Let_def list.case)
qed

lemma splitPunct_more:
  assumes "dropWhile (\<lambda>c. \<not> isPunct c) s = c # cs"
  shows "splitPunct s = takeWhile (\<lambda>c. \<not> isPunct c) s # [c] # splitPunct cs"
  using assms by (subst splitPunct.simps) (simp only: Let_def list.case)

lemma splitSlash_last:
  assumes "dropWhile (\<lambda>c. c \<noteq> 47) s = []"
  shows "splitSlash s = [s]"
proof -
  from assms have "takeWhile (\<lambda>c. c \<noteq> 47) s = s"
    by (metis append_Nil2 takeWhile_dropWhile_id)
  with assms show ?thesis
    by (subst splitSlash.simps) (simp only: Let_def list.case)
qed

lemma splitSlash_more:
  assumes "dropWhile (\<lambda>c. c \<noteq> 47) s = c # cs"
  shows "splitSlash s = takeWhile (\<lambda>c. c \<noteq> 47) s # splitSlash cs"
  using assms by (subst splitSlash.simps) (simp only: Let_def list.case)

lemma concat_splitSpaces: "concat (splitSpaces t) = t"
proof (induction t rule: splitSpaces.induct)
  case (1 s)
  let ?rest = "dropWhile (\<lambda>c. \<not> isSpace c) s"
  show ?case
  proof (cases "?rest = []")
    case True
    then show ?thesis by (simp only: splitSpaces_last concat.simps append_Nil2)
  next
    case False
    from "1.IH" [OF refl refl False]
    have "concat (splitSpaces (dropWhile isSpace ?rest)) = dropWhile isSpace ?rest" .
    then show ?thesis
      unfolding splitSpaces_more [OF refl False] by simp
  qed
qed

lemma concat_splitPunct: "concat (splitPunct t) = t"
proof (induction t rule: splitPunct.induct)
  case (1 s)
  show ?case
  proof (cases "dropWhile (\<lambda>c. \<not> isPunct c) s")
    case Nil
    then show ?thesis by (simp only: splitPunct_last concat.simps append_Nil2)
  next
    case (Cons c cs)
    from "1.IH" [OF refl Cons] have "concat (splitPunct cs) = cs" .
    moreover have "takeWhile (\<lambda>c. \<not> isPunct c) s @ c # cs = s"
      using Cons takeWhile_dropWhile_id [of "\<lambda>c. \<not> isPunct c" s] by simp
    ultimately show ?thesis
      unfolding splitPunct_more [OF Cons] by simp
  qed
qed

lemma transposePieces_verbatim:
  assumes "list_all (\<lambda>piece. \<not> isChordLike piece) (splitPunct tok)"
  shows "transposePieces tok s p = tok"
proof -
  have "map (\<lambda>piece. if isChordLike piece then transposeChordSymbol piece s p else piece)
          (splitPunct tok) = map (\<lambda>piece. piece) (splitPunct tok)"
    using assms by (intro map_cong refl) (simp add: list_all_iff)
  then show ?thesis
    by (simp add: transposePieces_def concat_splitPunct)
qed

lemma maybeTransposeToken_verbatim:
  assumes "\<not> isChordLike tok"
    and "list_all (\<lambda>piece. \<not> isChordLike piece) (splitPunct tok)"
  shows "maybeTransposeToken tok s p = tok"
  using assms transposePieces_verbatim [OF assms(2)]
  by (simp add: maybeTransposeToken_def)

lemma splitSlash_parts: "part \<in> set (splitSlash s) \<Longrightarrow> set part \<subseteq> set s"
proof (induction s arbitrary: part rule: splitSlash.induct)
  case (1 s)
  show ?case
  proof (cases "dropWhile (\<lambda>c. c \<noteq> 47) s")
    case Nil
    with "1.prems" show ?thesis by (simp add: splitSlash_last)
  next
    case (Cons c cs)
    have s: "s = takeWhile (\<lambda>c. c \<noteq> 47) s @ c # cs"
      using Cons takeWhile_dropWhile_id [of "\<lambda>c. c \<noteq> 47" s] by simp
    from "1.prems" have "part = takeWhile (\<lambda>c. c \<noteq> 47) s \<or> part \<in> set (splitSlash cs)"
      by (simp add: splitSlash_more [OF Cons])
    then show ?thesis
    proof
      assume "part = takeWhile (\<lambda>c. c \<noteq> 47) s"
      then show ?thesis by (auto dest: set_takeWhileD)
    next
      assume "part \<in> set (splitSlash cs)"
      from "1.IH" [OF refl Cons this] have "set part \<subseteq> set cs" .
      also have "set cs \<subseteq> set s"
        using set_dropWhileD [of _ "\<lambda>c. c \<noteq> 47" s] Cons by auto
      finally show ?thesis .
    qed
  qed
qed

lemma splitSlash_two:
  assumes "47 \<in> set s"
  shows "\<exists>t b rest. splitSlash s = t # b # rest"
proof -
  from assms obtain c cs where d: "dropWhile (\<lambda>c. c \<noteq> 47) s = c # cs"
    by (cases "dropWhile (\<lambda>c. c \<noteq> 47) s") auto
  show ?thesis
  proof (cases "dropWhile (\<lambda>c. c \<noteq> 47) cs")
    case Nil
    then show ?thesis by (simp add: splitSlash_more [OF d] splitSlash_last)
  next
    case (Cons e es)
    then show ?thesis by (simp add: splitSlash_more [OF d] splitSlash_more [OF Cons])
  qed
qed

lemma transposeChordSymbol_slash:
  assumes "47 \<in> set symb" "splitSlash symb = t # b # rest"
  shows "transposeChordSymbol symb s p =
           transposeChordSymbol t s p @ [47] @ transposeChordSymbol b s p"
  using assms by (subst transposeChordSymbol.simps) simp

lemma spelled_noteChar: "spelled r \<Longrightarrow> c \<in> set r \<Longrightarrow> noteChar c"
  unfolding spelled_def noteChar_def
  by (auto split: list.splits)

lemma spelled_nonempty: "spelled r \<Longrightarrow> r \<noteq> []"
  unfolding spelled_def by auto

lemma transposeNote_root:
  assumes "CHORD_RE symb = Some (r, tail)"
  shows "spelled (transposeNote r s p)"
proof -
  from assms obtain i where "pitchClass r = Some i"
    unfolding CHORD_RE_def by (blast dest: root_recognized)
  then obtain k where "normNote r = Some k" "indexOf k = Some i"
    by (auto simp: pitchClass_def split: option.splits)
  from transposeNote_recognized [OF this] show ?thesis
    by (simp add: spelled_chooseSpelling)
qed

lemma transposeChordSymbol_chars:
  "c \<in> set (transposeChordSymbol symb s p) \<Longrightarrow> c \<in> set symb \<or> noteChar c"
proof (induction symb s p arbitrary: c rule: transposeChordSymbol.induct)
  case (1 symbol steps preferSharps)
  show ?case
  proof (cases "47 \<in> set symbol")
    case True
    from splitSlash_two [OF True] obtain t b rest
      where sp: "splitSlash symbol = t # b # rest" by blast
    from "1.prems" transposeChordSymbol_slash [OF True sp]
    consider "c \<in> set (transposeChordSymbol t steps preferSharps)"
      | "c = 47" | "c \<in> set (transposeChordSymbol b steps preferSharps)"
      by auto
    then show ?thesis
    proof cases
      case 1
      from "1.IH"(1) [OF True sp refl this] splitSlash_parts [of t symbol] sp
      show ?thesis by auto
    next
      case 2
      then show ?thesis by (simp add: noteChar_def)
    next
      case 3
      from "1.IH"(2) [OF True sp refl this] splitSlash_parts [of b symbol] sp
      show ?thesis by auto
    qed
  next
    case False
    show ?thesis
    proof (cases "CHORD_RE symbol")
      case None
      with False "1.prems" show ?thesis
        by (simp add: transposeChordSymbol_noslash)
    next
      case (Some m)
      obtain r tail where m: "m = (r, tail)" by (cases m)
      from Some m have eq: "symbol = r @ tail"
        unfolding CHORD_RE_def by (blast dest: matchRootTail_Some)
      from False Some m "1.prems"
      have "c \<in> set (transposeNote r steps preferSharps) \<or> c \<in> set tail"
        by (simp add: transposeChordSymbol_noslash)
      with spelled_noteChar [OF transposeNote_root [of symbol r tail steps preferSharps]]
        Some m eq
      show ?thesis by auto
    qed
  qed
qed

lemma transposeChordSymbol_nonempty:
  assumes "symb \<noteq> []"
  shows "transposeChordSymbol symb s p \<noteq> []"
proof (cases "47 \<in> set symb")
  case True
  from splitSlash_two [OF True] obtain t b rest
    where sp: "splitSlash symb = t # b # rest" by blast
  show ?thesis by (simp add: transposeChordSymbol_slash [OF True sp])
next
  case False
  show ?thesis
  proof (cases "CHORD_RE symb")
    case None
    with False assms show ?thesis by (simp add: transposeChordSymbol_noslash)
  next
    case (Some m)
    obtain r tail where m: "m = (r, tail)" by (cases m)
    from spelled_nonempty [OF transposeNote_root [of symb r tail s p]] Some m False
    show ?thesis by (simp add: transposeChordSymbol_noslash)
  qed
qed

lemma splitPunct_pieces:
  "piece \<in> set (splitPunct s) \<Longrightarrow>
     (\<exists>c. isPunct c \<and> piece = [c]) \<or> list_all (\<lambda>c. \<not> isPunct c) piece"
proof (induction s arbitrary: piece rule: splitPunct.induct)
  case (1 s)
  have tw: "list_all (\<lambda>c. \<not> isPunct c) (takeWhile (\<lambda>c. \<not> isPunct c) s)"
    by (auto simp: list_all_iff dest: set_takeWhileD)
  show ?case
  proof (cases "dropWhile (\<lambda>c. \<not> isPunct c) s")
    case Nil
    then have "takeWhile (\<lambda>c. \<not> isPunct c) s = s"
      by (metis append_Nil2 takeWhile_dropWhile_id)
    with "1.prems" Nil tw show ?thesis by (simp add: splitPunct_last)
  next
    case (Cons c cs)
    from Cons have "isPunct c"
      using hd_dropWhile [of "\<lambda>c. \<not> isPunct c" s] by simp
    moreover from "1.prems"
    have "piece = takeWhile (\<lambda>c. \<not> isPunct c) s \<or> piece = [c] \<or> piece \<in> set (splitPunct cs)"
      by (simp add: splitPunct_more [OF Cons])
    ultimately show ?thesis
      using tw "1.IH" [OF refl Cons] by blast
  qed
qed

lemma noteChar_plain: "noteChar c \<Longrightarrow> \<not> isPunct c \<and> \<not> isSpace c"
  unfolding noteChar_def isPunct_def isSpace_def by auto

lemma punct_not_chordLike: "isPunct c \<Longrightarrow> \<not> isChordLike [c]"
  unfolding isPunct_def isChordLike_def isRootLetter_def canonicalize_def by auto

lemma piece_chars:
  assumes "c \<in> set (if isChordLike piece then transposeChordSymbol piece s p else piece)"
  shows "c \<in> set piece \<or> noteChar c"
  using assms transposeChordSymbol_chars [of c piece s p] by (auto split: if_splits)

lemma piece_filter_punct:
  assumes "piece \<in> set (splitPunct tok)"
  shows "filter isPunct (if isChordLike piece then transposeChordSymbol piece s p else piece)
           = filter isPunct piece"
proof -
  from splitPunct_pieces [OF assms]
  consider c where "isPunct c" "piece = [c]" | "list_all (\<lambda>c. \<not> isPunct c) piece"
    by blast
  then show ?thesis
  proof cases
    case 1
    with punct_not_chordLike [of c] show ?thesis by simp
  next
    case 2
    then have a: "filter isPunct piece = []"
      by (simp add: list_all_iff)
    have "\<not> isPunct c"
      if "c \<in> set (if isChordLike piece then transposeChordSymbol piece s p else piece)" for c
      using piece_chars [OF that] 2 noteChar_plain [of c] by (auto simp: list_all_iff)
    then have "filter isPunct
        (if isChordLike piece then transposeChordSymbol piece s p else piece) = []"
      unfolding filter_empty_conv by blast
    with a show ?thesis by simp
  qed
qed

lemma transposePieces_punct:
  "filter isPunct (transposePieces tok s p) = filter isPunct tok"
proof -
  have "filter isPunct (transposePieces tok s p) =
          concat (map (\<lambda>piece. filter isPunct
            (if isChordLike piece then transposeChordSymbol piece s p else piece))
            (splitPunct tok))"
    by (simp add: transposePieces_def filter_concat comp_def)
  also have "\<dots> = concat (map (filter isPunct) (splitPunct tok))"
    using piece_filter_punct [of _ tok s p]
    by (intro arg_cong [where f = concat] map_cong refl) blast
  also have "\<dots> = filter isPunct (concat (splitPunct tok))"
    by (simp add: filter_concat)
  finally show ?thesis by (simp add: concat_splitPunct)
qed

lemma transposePieces_chars:
  assumes "c \<in> set (transposePieces tok s p)"
  shows "c \<in> set tok \<or> noteChar c"
proof -
  from assms obtain piece where piece: "piece \<in> set (splitPunct tok)"
    and c: "c \<in> set (if isChordLike piece then transposeChordSymbol piece s p else piece)"
    by (auto simp: transposePieces_def)
  have "set piece \<subseteq> set (concat (splitPunct tok))" using piece by auto
  then have "set piece \<subseteq> set tok" by (simp only: concat_splitPunct)
  with piece_chars [OF c] show ?thesis by auto
qed

lemma maybeTransposeToken_chars:
  assumes "c \<in> set (maybeTransposeToken tok s p)"
  shows "c \<in> set tok \<or> noteChar c"
  using assms transposePieces_chars [of c tok s p] transposeChordSymbol_chars [of c tok s p]
  by (auto simp: maybeTransposeToken_def split: if_splits)

lemma maybeTransposeToken_nonempty:
  assumes "tok \<noteq> []"
  shows "maybeTransposeToken tok s p \<noteq> []"
proof -
  have "transposePieces tok s p \<noteq> []" if "list_ex isPunct tok"
  proof -
    from that have "filter isPunct tok \<noteq> []"
      by (simp add: filter_empty_conv list_ex_iff)
    then have "filter isPunct (transposePieces tok s p) \<noteq> []"
      by (simp add: transposePieces_punct)
    then show ?thesis by auto
  qed
  with assms transposeChordSymbol_nonempty [OF assms, of s p] show ?thesis
    by (simp add: maybeTransposeToken_def)
qed

lemma maybeTransposeToken_space:
  "list_all isSpace tok \<Longrightarrow> maybeTransposeToken tok s p = tok"
  by (simp add: maybeTransposeToken_def)

lemma splitSpaces_head:
  "\<exists>more. splitSpaces r = takeWhile (\<lambda>c. \<not> isSpace c) r # more"
proof (cases "dropWhile (\<lambda>c. \<not> isSpace c) r = []")
  case True
  then have "takeWhile (\<lambda>c. \<not> isSpace c) r = r"
    by (metis append_Nil2 takeWhile_dropWhile_id)
  with splitSpaces_last [OF True] show ?thesis by (intro exI [of _ "[]"]) (simp only:)
next
  case False
  from splitSpaces_more [OF refl False] show ?thesis by blast
qed

lemma takeWhile_hd_fails: "xs = [] \<or> \<not> P (hd xs) \<Longrightarrow> takeWhile P xs = []"
  by (cases xs) auto

lemma dropWhile_hd_fails: "xs = [] \<or> \<not> P (hd xs) \<Longrightarrow> dropWhile P xs = xs"
  by (cases xs) auto

lemma joined_head:
  assumes sp: "\<And>tok. list_all isSpace tok \<Longrightarrow> f tok = tok"
    and ch: "\<And>tok c. c \<in> set (f tok) \<Longrightarrow> c \<in> set tok \<or> \<not> isSpace c"
    and ne: "\<And>tok. tok \<noteq> [] \<Longrightarrow> f tok \<noteq> []"
    and r: "r = [] \<or> \<not> isSpace (hd r)"
  shows "concat (map f (splitSpaces r)) = [] \<or>
         \<not> isSpace (hd (concat (map f (splitSpaces r))))"
proof (cases "r = []")
  case True
  have "splitSpaces [] = [[]]" by (rule splitSpaces_last) simp
  moreover have "f [] = []" by (rule sp) simp
  ultimately show ?thesis using True by simp
next
  case False
  let ?N = "\<lambda>c. \<not> isSpace c"
  from False r have "takeWhile ?N r \<noteq> []" by (cases r) simp_all
  then have fne: "f (takeWhile ?N r) \<noteq> []" by (rule ne)
  from splitSpaces_head [of r] obtain more
    where "splitSpaces r = takeWhile ?N r # more" by blast
  then have "concat (map f (splitSpaces r)) = f (takeWhile ?N r) @ concat (map f more)"
    by simp
  with fne have "hd (concat (map f (splitSpaces r))) \<in> set (f (takeWhile ?N r))" by simp
  from ch [OF this] show ?thesis by (auto dest: set_takeWhileD)
qed

lemma splitSpaces_map:
  assumes sp: "\<And>tok. list_all isSpace tok \<Longrightarrow> f tok = tok"
    and ch: "\<And>tok c. c \<in> set (f tok) \<Longrightarrow> c \<in> set tok \<or> \<not> isSpace c"
    and ne: "\<And>tok. tok \<noteq> [] \<Longrightarrow> f tok \<noteq> []"
  shows "splitSpaces (concat (map f (splitSpaces t))) = map f (splitSpaces t)"
proof (induction t rule: splitSpaces.induct)
  case (1 s)
  let ?N = "\<lambda>c. \<not> isSpace c"
  let ?tok = "takeWhile ?N s"
  let ?rest = "dropWhile ?N s"
  have plain: "\<not> isSpace c" if "c \<in> set (f (takeWhile ?N r))" for c r
    using ch [OF that] by (auto dest: set_takeWhileD)
  show ?case
  proof (cases "?rest = []")
    case True
    then have tok: "?tok = s"
      by (metis append_Nil2 takeWhile_dropWhile_id)
    have "dropWhile ?N (f s) = []"
      using plain [of _ s] unfolding tok by simp
    then have "splitSpaces (f s) = [f s]" by (rule splitSpaces_last)
    with splitSpaces_last [OF True] show ?thesis by simp
  next
    case False
    let ?ws = "takeWhile isSpace ?rest"
    let ?r' = "dropWhile isSpace ?rest"
    let ?X = "concat (map f (splitSpaces ?r'))"
    from "1.IH" [OF refl refl False]
    have IH: "splitSpaces ?X = map f (splitSpaces ?r')" .
    from False have hdrest: "isSpace (hd ?rest)"
      using hd_dropWhile [of ?N s] by simp
    with False have ws_hd: "?ws \<noteq> [] \<and> isSpace (hd ?ws)"
      by (cases ?rest) simp_all
    have ws_all: "isSpace x" if "x \<in> set ?ws" for x
      using that by (rule set_takeWhileD [THEN conjunct2])
    then have "list_all isSpace ?ws"
      unfolding list_all_iff by blast
    then have fws: "f ?ws = ?ws" by (rule sp)
    have r': "?r' = [] \<or> \<not> isSpace (hd ?r')"
      using hd_dropWhile [of isSpace ?rest] by blast
    have X_head: "?X = [] \<or> \<not> isSpace (hd ?X)"
      by (rule joined_head [OF sp ch ne r'])
    let ?Y = "f ?tok @ ?ws @ ?X"
    have wsX: "?ws @ ?X \<noteq> []" "\<not> ?N (hd (?ws @ ?X))"
      using ws_hd by simp_all
    have d: "dropWhile ?N ?Y = ?ws @ ?X"
    proof -
      have "dropWhile ?N ?Y = dropWhile ?N (?ws @ ?X)"
        using plain [of _ s] by (intro dropWhile_append2) blast
      also have "\<dots> = ?ws @ ?X"
        using wsX by (intro dropWhile_hd_fails) blast
      finally show ?thesis .
    qed
    have t: "takeWhile ?N ?Y = f ?tok"
    proof -
      have "takeWhile ?N ?Y = f ?tok @ takeWhile ?N (?ws @ ?X)"
        using plain [of _ s] by (intro takeWhile_append2) blast
      also have "takeWhile ?N (?ws @ ?X) = []"
        using wsX by (intro takeWhile_hd_fails) blast
      finally show ?thesis by (simp only: append_Nil2)
    qed
    have tw: "takeWhile isSpace (?ws @ ?X) = ?ws"
    proof -
      have "takeWhile isSpace (?ws @ ?X) = ?ws @ takeWhile isSpace ?X"
        by (intro takeWhile_append2) (rule ws_all)
      also have "takeWhile isSpace ?X = []"
        using X_head by (intro takeWhile_hd_fails) blast
      finally show ?thesis by (simp only: append_Nil2)
    qed
    have dw: "dropWhile isSpace (?ws @ ?X) = ?X"
    proof -
      have "dropWhile isSpace (?ws @ ?X) = dropWhile isSpace ?X"
        by (intro dropWhile_append2 ballI) (rule ws_all)
      also have "\<dots> = ?X"
        using X_head by (intro dropWhile_hd_fails) blast
      finally show ?thesis .
    qed
    have "splitSpaces ?Y = f ?tok # ?ws # splitSpaces ?X"
      using splitSpaces_more [OF d wsX(1)] unfolding t tw dw .
    with IH fws show ?thesis
      unfolding splitSpaces_more [OF refl False] by simp
  qed
qed

lemma transposeChordText_split:
  "splitSpaces (transposeChordText t s p) =
     map (\<lambda>tok. maybeTransposeToken tok s p) (splitSpaces t)"
proof -
  have "\<not> isSpace c \<or> c \<in> set tok" if "c \<in> set (maybeTransposeToken tok s p)" for c tok
    using maybeTransposeToken_chars [OF that] noteChar_plain [of c] by blast
  then show ?thesis
    unfolding transposeChordText_def Let_def
    by (intro splitSpaces_map maybeTransposeToken_space maybeTransposeToken_nonempty) blast+
qed

lemma transposeChordText_unchanged:
  assumes "list_all (\<lambda>tok. maybeTransposeToken tok s p = tok) (splitSpaces t)"
  shows "transposeChordText t s p = t"
proof -
  have "map (\<lambda>tok. maybeTransposeToken tok s p) (splitSpaces t) = map (\<lambda>tok. tok) (splitSpaces t)"
    using assms by (intro map_cong refl) (simp add: list_all_iff)
  then show ?thesis
    by (simp add: transposeChordText_def concat_splitSpaces)
qed

section \<open>Whitespace-preserving split and join (C1)\<close>

text \<open>
  C1. For every input \<open>t\<close>, joining the spans of the whitespace-preserving split gives
  \<open>t\<close> back, unit for unit. Consequently \<open>transposeChordText\<close> keeps the span structure:
  the split of its output is the split of the input with \<open>maybeTransposeToken\<close> applied
  to each span, where every span of white space and every span that is not chord-like
  (and has no chord-like piece between punctuation) is returned verbatim; and when no
  span is changed the output is the input.
\<close>

theorem split_join_preserves:
  "concat (splitSpaces t) = t \<and>
   splitSpaces (transposeChordText t s p) =
     map (\<lambda>tok. maybeTransposeToken tok s p) (splitSpaces t) \<and>
   (list_all isSpace ws \<longrightarrow> maybeTransposeToken ws s p = ws) \<and>
   (\<not> isChordLike tok \<and> list_all (\<lambda>piece. \<not> isChordLike piece) (splitPunct tok) \<longrightarrow>
      maybeTransposeToken tok s p = tok) \<and>
   (list_all (\<lambda>tok. maybeTransposeToken tok s p = tok) (splitSpaces u) \<longrightarrow>
      transposeChordText u s p = u)"
  using concat_splitSpaces [of t] transposeChordText_split [of t s p]
    maybeTransposeToken_space [of ws s p] maybeTransposeToken_verbatim [of tok s p]
    transposeChordText_unchanged [of s p u]
  by blast

theorem split_join_preserves_witness:
  "concat (splitSpaces (js ''C  hi'')) = js ''C  hi'' \<and>
   splitSpaces (transposeChordText (js ''C  hi'') 2 True) = [js ''D'', js ''  '', js ''hi''] \<and>
   list_all isSpace (js ''  '') \<and>
   maybeTransposeToken (js ''  '') 2 True = js ''  '' \<and>
   \<not> isChordLike (js ''hi'') \<and>
   list_all (\<lambda>piece. \<not> isChordLike piece) (splitPunct (js ''hi'')) \<and>
   maybeTransposeToken (js ''hi'') 2 True = js ''hi'' \<and>
   list_all (\<lambda>tok. maybeTransposeToken tok 2 True = tok) (splitSpaces (js ''oh  hi'')) \<and>
   transposeChordText (js ''oh  hi'') 2 True = js ''oh  hi''"
proof -
  have h1: "list_all isSpace (js ''  '')"
    by (simp add: js_def isSpace_def)
  have h2: "\<not> isChordLike (js ''hi'')"
    by (simp add: text_eval)
  have h3: "list_all (\<lambda>piece. \<not> isChordLike piece) (splitPunct (js ''hi''))"
    by (simp add: text_eval)
  have h4: "list_all (\<lambda>tok. maybeTransposeToken tok 2 True = tok) (splitSpaces (js ''oh  hi''))"
    by (simp add: text_eval)
  have e: "map (\<lambda>tok. maybeTransposeToken tok 2 True) (splitSpaces (js ''C  hi''))
             = [js ''D'', js ''  '', js ''hi'']"
    by (simp add: text_eval)
  from split_join_preserves
    [of "js ''C  hi''" 2 True "js ''  ''" "js ''hi''" "js ''oh  hi''"] h1 h2 h3 h4 e
  show ?thesis by simp
qed

section \<open>Chord symbols (C5)\<close>

lemma splitSlash_halves:
  assumes "47 \<notin> set t" "47 \<notin> set b"
  shows "splitSlash (t @ [47] @ b) = [t, b]"
proof -
  from assms(1) have nt: "x \<noteq> 47" if "x \<in> set t" for x using that by auto
  have "dropWhile (\<lambda>c. c \<noteq> 47) (t @ [47] @ b) = dropWhile (\<lambda>c. c \<noteq> 47) ([47] @ b)"
    by (intro dropWhile_append2) (rule nt)
  then have d: "dropWhile (\<lambda>c. c \<noteq> 47) (t @ [47] @ b) = 47 # b"
    by simp
  have "takeWhile (\<lambda>c. c \<noteq> 47) (t @ [47] @ b) = t @ takeWhile (\<lambda>c. c \<noteq> 47) ([47] @ b)"
    by (intro takeWhile_append2) (rule nt)
  then have tk: "takeWhile (\<lambda>c. c \<noteq> 47) (t @ [47] @ b) = t"
    by simp
  have "dropWhile (\<lambda>c. c \<noteq> 47) b = []"
    using assms(2) by auto
  then have "splitSlash b = [b]" by (rule splitSlash_last)
  with splitSlash_more [OF d] tk show ?thesis by simp
qed

text \<open>
  C5. \<open>transposeChordSymbol\<close> splits a slash chord at the slash, transposes each half
  on its own and joins them with a slash again. A symbol without a slash that matches
  the root pattern (a letter A to G in either case, an optional accidental, then units
  other than a slash or white space) is the root followed by the tail, and the result is
  \<open>transposeNote\<close> of the root followed by the same tail; a symbol without a slash that
  does not match is returned unchanged. \<open>transposeChordSymbol("C/E", -2, false)\<close> is
  \<open>"Bb/D"\<close>.
\<close>

theorem transposeChordSymbol_structure:
  "(47 \<notin> set t \<and> 47 \<notin> set b \<longrightarrow>
      transposeChordSymbol (t @ [47] @ b) s p =
        transposeChordSymbol t s p @ [47] @ transposeChordSymbol b s p) \<and>
   (47 \<notin> set symb \<and> CHORD_RE symb = Some (r, tail) \<longrightarrow>
      symb = r @ tail \<and>
      (\<exists>c. isRootLetter c \<and> (r = [c] \<or> (\<exists>a. isAccidental a \<and> r = [c, a]))) \<and>
      list_all (\<lambda>x. x \<noteq> 47 \<and> \<not> isSpace x) tail \<and>
      transposeChordSymbol symb s p = transposeNote r s p @ tail) \<and>
   (47 \<notin> set x \<and> CHORD_RE x = None \<longrightarrow> transposeChordSymbol x s p = x) \<and>
   transposeChordSymbol (js ''C/E'') (- 2) False = js ''Bb/D''"
proof (intro conjI impI)
  assume "47 \<notin> set t \<and> 47 \<notin> set b"
  then have a: "47 \<notin> set t" "47 \<notin> set b" by simp_all
  have "47 \<in> set (t @ [47] @ b)" by simp
  from transposeChordSymbol_slash [OF this splitSlash_halves [OF a], of s p]
  show "transposeChordSymbol (t @ [47] @ b) s p =
          transposeChordSymbol t s p @ [47] @ transposeChordSymbol b s p" .
next
  assume a: "47 \<notin> set symb \<and> CHORD_RE symb = Some (r, tail)"
  then have m: "matchRootTail (\<lambda>x. x \<noteq> 47 \<and> \<not> isSpace x) symb = Some (r, tail)"
    by (simp add: CHORD_RE_def)
  from matchRootTail_Some [OF m]
  show "symb = r @ tail"
    and "\<exists>c. isRootLetter c \<and> (r = [c] \<or> (\<exists>a. isAccidental a \<and> r = [c, a]))"
    and "list_all (\<lambda>x. x \<noteq> 47 \<and> \<not> isSpace x) tail"
    by blast+
  from a show "transposeChordSymbol symb s p = transposeNote r s p @ tail"
    by (simp add: transposeChordSymbol_noslash)
next
  assume "47 \<notin> set x \<and> CHORD_RE x = None"
  then show "transposeChordSymbol x s p = x"
    by (simp add: transposeChordSymbol_noslash)
next
  show "transposeChordSymbol (js ''C/E'') (- 2) False = js ''Bb/D''"
    by (simp add: text_eval)
qed

theorem transposeChordSymbol_structure_witness:
  "47 \<notin> set (js ''Am7'') \<and> 47 \<notin> set (js ''G'') \<and>
   transposeChordSymbol (js ''Am7/G'') 2 True = js ''Bm7/A'' \<and>
   CHORD_RE (js ''Am7'') = Some (js ''A'', js ''m7'') \<and>
   transposeNote (js ''A'') 2 True = js ''B'' \<and>
   transposeChordSymbol (js ''Am7'') 2 True = js ''Bm7'' \<and>
   47 \<notin> set (js ''N.C.'') \<and> CHORD_RE (js ''N.C.'') = None \<and>
   transposeChordSymbol (js ''N.C.'') 2 True = js ''N.C.''"
proof -
  have h1: "47 \<notin> set (js ''Am7'')" "47 \<notin> set (js ''G'')" "47 \<notin> set (js ''N.C.'')"
    by (simp_all add: js_def)
  have h2: "CHORD_RE (js ''Am7'') = Some (js ''A'', js ''m7'')"
    by (simp add: text_eval)
  have h3: "CHORD_RE (js ''N.C.'') = None"
    by (simp add: text_eval)
  have e: "transposeNote (js ''A'') 2 True = js ''B''"
    "transposeChordSymbol (js ''G'') 2 True = js ''A''"
    "js ''Am7'' @ [47] @ js ''G'' = js ''Am7/G''"
    "js ''B'' @ js ''m7'' = js ''Bm7''"
    "js ''Bm7'' @ [47] @ js ''A'' = js ''Bm7/A''"
    by (simp_all add: text_eval)
  from transposeChordSymbol_structure
    [of "js ''Am7''" "js ''G''" 2 True "js ''Am7''" "js ''A''" "js ''m7''" "js ''N.C.''"]
    h1 h2 h3
  have "transposeChordSymbol (js ''Am7'' @ [47] @ js ''G'') 2 True =
          transposeChordSymbol (js ''Am7'') 2 True @ [47] @ transposeChordSymbol (js ''G'') 2 True"
    and "transposeChordSymbol (js ''Am7'') 2 True = transposeNote (js ''A'') 2 True @ js ''m7''"
    and "transposeChordSymbol (js ''N.C.'') 2 True = js ''N.C.''"
    by blast+
  with h1 h2 h3 e show ?thesis by simp
qed

section \<open>Units of chord-like tokens\<close>

lemma chordTail_Cons1: "unit1 c \<Longrightarrow> chordTail cs \<Longrightarrow> chordTail (c # cs)"
  by (cases cs rule: chordTail.cases) simp_all

lemma chordTail_Cons3: "unit3 c1 c2 c3 \<Longrightarrow> chordTail cs \<Longrightarrow> chordTail (c1 # c2 # c3 # cs)"
  by simp

lemma unit1_plain: "unit1 c \<Longrightarrow> \<not> isPunct c \<and> \<not> isSpace c"
  unfolding unit1_def ci_def isDigit_def isRootLetter_def canonicalize_def isPunct_def isSpace_def
  by (auto split: if_splits)

lemma unit3_letters:
  assumes "unit3 c1 c2 c3" "c \<in> {c1, c2, c3}"
  shows "65 \<le> canonicalize c \<and> canonicalize c \<le> 90"
  using assms unfolding unit3_def word3_def js_def
  by (auto simp: canonicalize_def)

lemma unit3_plain:
  assumes "unit3 c1 c2 c3" "c \<in> {c1, c2, c3}"
  shows "\<not> isPunct c \<and> \<not> isSpace c"
  using unit3_letters [OF assms]
  unfolding canonicalize_def isPunct_def isSpace_def
  by (auto split: if_splits)

lemma chordTail_plain:
  "chordTail cs \<Longrightarrow> c \<in> set cs \<Longrightarrow> \<not> isPunct c \<and> \<not> isSpace c"
proof (induction cs rule: chordTail.induct)
  case 1
  then show ?case by simp
next
  case (2 c1)
  then show ?case using unit1_plain by simp
next
  case (3 c1 c2)
  then show ?case using unit1_plain by auto
next
  case (4 c1 c2 c3 cs)
  from "4.prems"(1) consider (a) "unit1 c1" "chordTail (c2 # c3 # cs)"
    | (b) "unit3 c1 c2 c3" "chordTail cs" by auto
  then show ?case
  proof cases
    case a
    with "4.prems"(2) "4.IH"(1) unit1_plain [of c1] show ?thesis by auto
  next
    case b
    with "4.prems"(2) "4.IH"(2) unit3_plain [OF b(1), of c] show ?thesis by auto
  qed
qed

lemma isChordLike_Cons: "isChordLike (c # cs) \<longleftrightarrow> isRootLetter c \<and> chordTail cs"
proof -
  have "chordTail (a # rest)" if "isAccidental a" "chordTail rest" for a rest
  proof -
    from that(1) have "unit1 a" by (auto simp: isAccidental_def unit1_def)
    with that(2) show ?thesis by (simp add: chordTail_Cons1)
  qed
  then show ?thesis
    by (auto simp: isChordLike_def split: list.splits)
qed

lemma isChordLike_plain:
  assumes "isChordLike tok" "c \<in> set tok"
  shows "\<not> isPunct c \<and> \<not> isSpace c"
proof -
  from assms(1) have "tok \<noteq> []" by (auto simp: isChordLike_def)
  then obtain x cs where tok: "tok = x # cs" by (cases tok) auto
  with assms(1) have x: "isRootLetter x" and t: "chordTail cs"
    by (simp_all add: isChordLike_Cons)
  from isRootLetter_cases [OF x] have "\<not> isPunct x \<and> \<not> isSpace x"
    by (auto simp: isPunct_def isSpace_def)
  with assms(2) tok chordTail_plain [OF t, of c] show ?thesis by auto
qed

lemma punctuated_not_chordLike: "list_ex isPunct tok \<Longrightarrow> \<not> isChordLike tok"
  using isChordLike_plain [of tok] by (auto simp: list_ex_iff)

lemma punctuated_slash_unchanged:
  assumes "list_ex isPunct tok"
  shows "maybeTransposeToken tok s p =
           (if 47 \<in> set tok then tok else transposePieces tok s p)"
proof -
  from assms obtain x where "x \<in> set tok" "isPunct x"
    by (auto simp: list_ex_iff)
  moreover from this have "\<not> isSpace x"
    by (auto simp: isPunct_def isSpace_def)
  ultimately have "tok \<noteq> []" "\<not> list_all isSpace tok"
    by (auto simp: list_all_iff)
  with assms punctuated_not_chordLike [OF assms] show ?thesis
    by (simp add: maybeTransposeToken_def)
qed

section \<open>Punctuation inside a token (C7)\<close>

lemma splitPunct_map:
  assumes pu: "\<And>c. isPunct c \<Longrightarrow> g [c] = [c]"
    and ch: "\<And>piece c. c \<in> set (g piece) \<Longrightarrow> c \<in> set piece \<or> \<not> isPunct c"
  shows "splitPunct (concat (map g (splitPunct t))) = map g (splitPunct t)"
proof (induction t rule: splitPunct.induct)
  case (1 s)
  let ?N = "\<lambda>c. \<not> isPunct c"
  have plain: "\<not> isPunct c" if "c \<in> set (g (takeWhile ?N r))" for c r
    using ch [OF that] by (auto dest: set_takeWhileD)
  show ?case
  proof (cases "dropWhile ?N s")
    case Nil
    then have tok: "takeWhile ?N s = s"
      by (metis append_Nil2 takeWhile_dropWhile_id)
    have "dropWhile ?N (g s) = []"
      using plain [of _ s] unfolding tok by simp
    then have "splitPunct (g s) = [g s]" by (rule splitPunct_last)
    with splitPunct_last [OF Nil] show ?thesis by simp
  next
    case (Cons c cs)
    let ?X = "concat (map g (splitPunct cs))"
    let ?Y = "g (takeWhile ?N s) @ [c] @ ?X"
    from "1.IH" [OF refl Cons] have IH: "splitPunct ?X = map g (splitPunct cs)" .
    from Cons have c: "isPunct c"
      using hd_dropWhile [of ?N s] by simp
    have "dropWhile ?N ?Y = dropWhile ?N ([c] @ ?X)"
      by (intro dropWhile_append2) (rule plain)
    with c have d: "dropWhile ?N ?Y = c # ?X" by simp
    have "takeWhile ?N ?Y = g (takeWhile ?N s) @ takeWhile ?N ([c] @ ?X)"
      by (intro takeWhile_append2) (rule plain)
    with c have t: "takeWhile ?N ?Y = g (takeWhile ?N s)" by simp
    have "splitPunct ?Y = g (takeWhile ?N s) # [c] # splitPunct ?X"
      using splitPunct_more [OF d] unfolding t .
    with IH pu [OF c] show ?thesis
      unfolding splitPunct_more [OF Cons] by simp
  qed
qed

lemma transposePieces_split:
  "splitPunct (transposePieces tok s p) =
     map (\<lambda>piece. if isChordLike piece then transposeChordSymbol piece s p else piece)
       (splitPunct tok)"
proof -
  have "c \<in> set piece \<or> \<not> isPunct c"
    if "c \<in> set (if isChordLike piece then transposeChordSymbol piece s p else piece)"
    for c piece
    using piece_chars [OF that] noteChar_plain [of c] by blast
  then show ?thesis
    unfolding transposePieces_def
    by (intro splitPunct_map) (simp_all add: punct_not_chordLike)
qed

text \<open>
  C7, as the program has it. A token that contains a bracket, comma or pipe and no slash
  is split at each punctuation unit; each piece that is chord-like is transposed on its
  own and every other piece, each punctuation unit among them, is kept: splitting the
  result at the punctuation again gives the pieces of the input, the chord-like ones
  transposed. A token that contains punctuation and a slash is not split: it is tested
  as a whole, and since no punctuation unit is among the chord units it is not chord-like
  and is returned unchanged. \<open>(G)\<close> two semitones up is \<open>(A)\<close>.
\<close>

theorem punctuated_token_pieces:
  "(list_ex isPunct tok \<and> 47 \<notin> set tok \<longrightarrow>
      maybeTransposeToken tok s p = transposePieces tok s p \<and>
      concat (splitPunct tok) = tok \<and>
      splitPunct (maybeTransposeToken tok s p) =
        map (\<lambda>piece. if isChordLike piece then transposeChordSymbol piece s p else piece)
          (splitPunct tok) \<and>
      filter isPunct (maybeTransposeToken tok s p) = filter isPunct tok) \<and>
   (isPunct c \<longrightarrow> \<not> isChordLike [c]) \<and>
   (list_ex isPunct u \<and> 47 \<in> set u \<longrightarrow>
      maybeTransposeToken u s p = (if isChordLike u then transposeChordSymbol u s p else u) \<and>
      \<not> isChordLike u \<and>
      maybeTransposeToken u s p = u) \<and>
   splitPunct (js ''(G)'') = [[], js ''('', js ''G'', js '')'', []] \<and>
   transposeChordText (js ''(G)'') 2 True = js ''(A)''"
proof (intro conjI impI)
  assume a: "list_ex isPunct tok \<and> 47 \<notin> set tok"
  then obtain x where "x \<in> set tok" "isPunct x"
    by (auto simp: list_ex_iff)
  moreover from this have "\<not> isSpace x"
    by (auto simp: isPunct_def isSpace_def)
  ultimately have "\<not> list_all isSpace tok"
    by (auto simp: list_all_iff)
  with a show m: "maybeTransposeToken tok s p = transposePieces tok s p"
    by (auto simp: maybeTransposeToken_def)
  show "concat (splitPunct tok) = tok" by (rule concat_splitPunct)
  show "splitPunct (maybeTransposeToken tok s p) =
          map (\<lambda>piece. if isChordLike piece then transposeChordSymbol piece s p else piece)
            (splitPunct tok)"
    unfolding m by (rule transposePieces_split)
  show "filter isPunct (maybeTransposeToken tok s p) = filter isPunct tok"
    unfolding m by (rule transposePieces_punct)
next
  assume "isPunct c"
  then show "\<not> isChordLike [c]" by (rule punct_not_chordLike)
next
  assume "list_ex isPunct u \<and> 47 \<in> set u"
  then have u: "list_ex isPunct u" "47 \<in> set u" by simp_all
  from punctuated_not_chordLike [OF u(1)] show n: "\<not> isChordLike u" .
  from punctuated_slash_unchanged [OF u(1), of s p] u(2)
  show e: "maybeTransposeToken u s p = u" by simp
  from n e
  show "maybeTransposeToken u s p = (if isChordLike u then transposeChordSymbol u s p else u)"
    by simp
next
  show "splitPunct (js ''(G)'') = [[], js ''('', js ''G'', js '')'', []]"
    by (simp add: text_eval)
next
  show "transposeChordText (js ''(G)'') 2 True = js ''(A)''"
    by (simp add: text_eval)
qed

theorem punctuated_token_pieces_witness:
  "list_ex isPunct (js ''[Am|D7]'') \<and> 47 \<notin> set (js ''[Am|D7]'') \<and>
   maybeTransposeToken (js ''[Am|D7]'') 2 True = js ''[Bm|E7]'' \<and>
   splitPunct (maybeTransposeToken (js ''[Am|D7]'') 2 True) =
     [[], js ''['', js ''Bm'', js ''|'', js ''E7'', js '']'', []] \<and>
   filter isPunct (maybeTransposeToken (js ''[Am|D7]'') 2 True) = js ''[|]'' \<and>
   isPunct 40 \<and> \<not> isChordLike [40] \<and>
   list_ex isPunct (js ''(C/E)'') \<and> 47 \<in> set (js ''(C/E)'') \<and>
   \<not> isChordLike (js ''(C/E)'') \<and>
   maybeTransposeToken (js ''(C/E)'') 2 True = js ''(C/E)''"
proof -
  have h: "list_ex isPunct (js ''[Am|D7]'')" "47 \<notin> set (js ''[Am|D7]'')" "isPunct 40"
    by (simp_all add: js_def isPunct_def)
  have k: "list_ex isPunct (js ''(C/E)'')" "47 \<in> set (js ''(C/E)'')"
    by (simp_all add: js_def isPunct_def)
  have e: "transposePieces (js ''[Am|D7]'') 2 True = js ''[Bm|E7]''"
    "map (\<lambda>piece. if isChordLike piece then transposeChordSymbol piece 2 True else piece)
       (splitPunct (js ''[Am|D7]'')) = [[], js ''['', js ''Bm'', js ''|'', js ''E7'', js '']'', []]"
    "filter isPunct (js ''[Am|D7]'') = js ''[|]''"
    by (simp_all add: text_eval)
  from punctuated_token_pieces [of "js ''[Am|D7]''" 2 True 40 "js ''(C/E)''"] h k
  have r: "maybeTransposeToken (js ''[Am|D7]'') 2 True = transposePieces (js ''[Am|D7]'') 2 True"
    "splitPunct (maybeTransposeToken (js ''[Am|D7]'') 2 True) =
       map (\<lambda>piece. if isChordLike piece then transposeChordSymbol piece 2 True else piece)
         (splitPunct (js ''[Am|D7]''))"
    "filter isPunct (maybeTransposeToken (js ''[Am|D7]'') 2 True) = filter isPunct (js ''[Am|D7]'')"
    "\<not> isChordLike [40]"
    "\<not> isChordLike (js ''(C/E)'')"
    "maybeTransposeToken (js ''(C/E)'') 2 True = js ''(C/E)''"
    by blast+
  note r(1) [THEN trans, OF e(1)] r(2) [THEN trans, OF e(2)] r(3) [THEN trans, OF e(3)]
  with h k r(4,5,6) show ?thesis by blast
qed

text \<open>
  The claim as stated fails for a token that also contains a slash: \<open>(C/E)\<close> has the
  chord-like piece \<open>C/E\<close> between its brackets, which on its own becomes \<open>D/F#\<close>, but the
  token is not split and is returned unchanged.
\<close>

theorem punctuated_token_counterexample:
  "list_ex isPunct (js ''(C/E)'') \<and> \<not> list_ex isSpace (js ''(C/E)'') \<and>
   splitPunct (js ''(C/E)'') = [[], js ''('', js ''C/E'', js '')'', []] \<and>
   isChordLike (js ''C/E'') \<and>
   transposeChordSymbol (js ''C/E'') 2 True = js ''D/F#'' \<and>
   transposePieces (js ''(C/E)'') 2 True = js ''(D/F#)'' \<and>
   maybeTransposeToken (js ''(C/E)'') 2 True = js ''(C/E)'' \<and>
   transposeChordText (js ''(C/E)'') 2 True = js ''(C/E)''"
  by (simp add: text_eval)

section \<open>Case-insensitive matching (C9)\<close>

lemma canonicalize_idem: "canonicalize (canonicalize c) = canonicalize c"
  by (auto simp: canonicalize_def)

lemma canonicalize_plain:
  assumes "k < 65 \<or> (122 < k \<and> k \<noteq> 916 \<and> k \<noteq> 948)"
  shows "(canonicalize c = k) = (c = k)"
  using assms by (auto simp: canonicalize_def)

lemma ci_canonicalize: "ci q (canonicalize c) = ci q c"
  by (simp add: ci_def canonicalize_idem)

lemma isRootLetter_canonicalize: "isRootLetter (canonicalize c) = isRootLetter c"
  by (simp add: isRootLetter_def canonicalize_idem)

lemma isAccidental_canonicalize: "isAccidental (canonicalize c) = isAccidental c"
  by (simp add: isAccidental_def ci_canonicalize canonicalize_plain)

lemma isDigit_canonicalize: "isDigit (canonicalize c) = isDigit c"
  by (auto simp: isDigit_def canonicalize_def)

lemma isSpace_canonicalize: "isSpace (canonicalize c) = isSpace c"
  by (auto simp: isSpace_def canonicalize_def)

lemma unit1_canonicalize: "unit1 (canonicalize c) = unit1 c"
  by (simp add: unit1_def ci_canonicalize isDigit_canonicalize isRootLetter_canonicalize
      canonicalize_plain)

lemma unit3_canonicalize:
  "unit3 (canonicalize c1) (canonicalize c2) (canonicalize c3) = unit3 c1 c2 c3"
  by (simp add: unit3_def word3_def canonicalize_idem)

lemma chordTail_canonicalize: "chordTail (map canonicalize s) = chordTail s"
  by (induction s rule: chordTail.induct)
    (simp_all add: unit1_canonicalize unit3_canonicalize)

lemma isChordLike_canonicalize: "isChordLike (map canonicalize s) = isChordLike s"
proof (cases s)
  case Nil
  then show ?thesis by (simp add: isChordLike_def)
next
  case (Cons c cs)
  have "chordTail (map canonicalize cs) = chordTail cs"
    by (rule chordTail_canonicalize)
  moreover have "(case map canonicalize cs of
        a # rest \<Rightarrow> isAccidental a \<and> chordTail rest | [] \<Rightarrow> False) =
      (case cs of a # rest \<Rightarrow> isAccidental a \<and> chordTail rest | [] \<Rightarrow> False)"
    by (cases cs) (simp_all add: isAccidental_canonicalize chordTail_canonicalize)
  ultimately show ?thesis
    unfolding Cons isChordLike_def by (simp add: isRootLetter_canonicalize)
qed

lemma matchRootTail_canonicalize:
  assumes T: "\<And>x. T (canonicalize x) = T x"
  shows "matchRootTail T (map canonicalize s) =
           map_option (\<lambda>(r, tail). (map canonicalize r, map canonicalize tail))
             (matchRootTail T s)"
proof -
  have all: "list_all T (map canonicalize xs) = list_all T xs" for xs
    by (simp add: list_all_iff T)
  show ?thesis
  proof (cases s)
    case Nil
    then show ?thesis by (simp add: matchRootTail_def)
  next
    case s: (Cons c cs)
    show ?thesis
    proof (cases cs)
      case Nil
      with s show ?thesis
        by (simp add: matchRootTail_def isRootLetter_canonicalize)
    next
      case (Cons a rest)
      with s all [of rest] all [of cs] show ?thesis
        by (simp add: matchRootTail_def isRootLetter_canonicalize isAccidental_canonicalize)
    qed
  qed
qed

lemma CHORD_RE_canonicalize:
  "CHORD_RE (map canonicalize s) =
     map_option (\<lambda>(r, tail). (map canonicalize r, map canonicalize tail)) (CHORD_RE s)"
  unfolding CHORD_RE_def
  by (rule matchRootTail_canonicalize) (simp add: isSpace_canonicalize canonicalize_plain)

text \<open>
  C9. The chord-likeness test and the root pattern are applied case-insensitively: both
  give the same answer on a text and on its canonical (upper-case) form. So some
  all-lowercase words over the chord alphabet are rewritten: \<open>transposeChordText\<close> turns
  \<open>face\<close> two semitones up into \<open>Gace\<close>, and \<open>isChordLike("em")\<close> holds, although
  neither word has an upper-case letter.
\<close>

theorem lowercase_words_are_chords:
  "isChordLike (map canonicalize tok) = isChordLike tok \<and>
   CHORD_RE (map canonicalize tok) =
     map_option (\<lambda>(r, tail). (map canonicalize r, map canonicalize tail)) (CHORD_RE tok) \<and>
   list_all (\<lambda>c. 97 \<le> c \<and> c \<le> 122) (js ''face'') \<and>
   isChordLike (js ''face'') \<and>
   CHORD_RE (js ''face'') = Some (js ''f'', js ''ace'') \<and>
   transposeChordText (js ''face'') 2 True = js ''Gace'' \<and>
   js ''Gace'' \<noteq> js ''face'' \<and>
   list_all (\<lambda>c. 97 \<le> c \<and> c \<le> 122) (js ''em'') \<and>
   isChordLike (js ''em'')"
proof (intro conjI)
  show "isChordLike (map canonicalize tok) = isChordLike tok"
    by (rule isChordLike_canonicalize)
  show "CHORD_RE (map canonicalize tok) =
     map_option (\<lambda>(r, tail). (map canonicalize r, map canonicalize tail)) (CHORD_RE tok)"
    by (rule CHORD_RE_canonicalize)
  show "list_all (\<lambda>c. 97 \<le> c \<and> c \<le> 122) (js ''face'')"
    and "list_all (\<lambda>c. 97 \<le> c \<and> c \<le> 122) (js ''em'')"
    and "js ''Gace'' \<noteq> js ''face''"
    by (simp_all add: js_def)
  show "isChordLike (js ''face'')" and "isChordLike (js ''em'')"
    and "CHORD_RE (js ''face'') = Some (js ''f'', js ''ace'')"
    and "transposeChordText (js ''face'') 2 True = js ''Gace''"
    by (simp_all add: text_eval)
qed

section \<open>The chord-likeness test against its description (C6)\<close>

lemma PERMITTED_set:
  "set PERMITTED =
     js ` set [''maj'', ''min'', ''dim'', ''aug'', ''sus'', ''add''] \<union>
     (\<lambda>k. [k]) ` set [109, 43, 45, 47, 35, 98, 48, 49, 50, 51, 52, 53, 54, 55, 56, 57,
                       65, 66, 67, 68, 69, 70, 71, 176, 916]"
  by (auto simp: PERMITTED_def js_def)

lemma canonicalize_numerals:
  "canonicalize 109 = 77" "canonicalize 98 = 66" "canonicalize 916 = 916"
  "canonicalize 43 = 43" "canonicalize 45 = 45" "canonicalize 47 = 47"
  "canonicalize 35 = 35" "canonicalize 176 = 176"
  "canonicalize 48 = 48" "canonicalize 49 = 49" "canonicalize 50 = 50"
  "canonicalize 51 = 51" "canonicalize 52 = 52" "canonicalize 53 = 53"
  "canonicalize 54 = 54" "canonicalize 55 = 55" "canonicalize 56 = 56"
  "canonicalize 57 = 57"
  "canonicalize 65 = 65" "canonicalize 66 = 66" "canonicalize 67 = 67"
  "canonicalize 68 = 68" "canonicalize 69 = 69" "canonicalize 70 = 70"
  "canonicalize 71 = 71"
  by (simp_all add: canonicalize_def)

lemma unit1_of_canonical:
  assumes "k \<in> set [109, 43, 45, 47, 35, 98, 48, 49, 50, 51, 52, 53, 54, 55, 56, 57,
                      65, 66, 67, 68, 69, 70, 71, 176, 916]"
    and "canonicalize c = canonicalize k"
  shows "unit1 c"
proof -
  from assms(1) have "k = 109 \<or> k = 98 \<or> k = 916 \<or> (48 \<le> k \<and> k \<le> 57) \<or> (65 \<le> k \<and> k \<le> 71) \<or>
      k = 43 \<or> k = 45 \<or> k = 47 \<or> k = 35 \<or> k = 176"
    by auto
  then show ?thesis
  proof (elim disjE)
    assume "k = 109" with assms(2) show ?thesis by (simp add: unit1_def ci_def)
  next
    assume "k = 98" with assms(2) show ?thesis by (simp add: unit1_def ci_def)
  next
    assume "k = 916" with assms(2) show ?thesis by (simp add: unit1_def ci_def)
  next
    assume k: "48 \<le> k \<and> k \<le> 57"
    then have "canonicalize k = k" by (simp add: canonicalize_def)
    with assms(2) k have "isDigit (canonicalize c)" by (simp add: isDigit_def)
    then show ?thesis by (simp add: unit1_def isDigit_canonicalize)
  next
    assume k: "65 \<le> k \<and> k \<le> 71"
    then have "canonicalize k = k" by (simp add: canonicalize_def)
    with assms(2) k show ?thesis by (simp add: unit1_def isRootLetter_def)
  next
    assume "k = 43" with assms(2) show ?thesis
      by (simp add: unit1_def canonicalize_numerals canonicalize_plain)
  next
    assume "k = 45" with assms(2) show ?thesis
      by (simp add: unit1_def canonicalize_numerals canonicalize_plain)
  next
    assume "k = 47" with assms(2) show ?thesis
      by (simp add: unit1_def canonicalize_numerals canonicalize_plain)
  next
    assume "k = 35" with assms(2) show ?thesis
      by (simp add: unit1_def canonicalize_numerals canonicalize_plain)
  next
    assume "k = 176" with assms(2) show ?thesis
      by (simp add: unit1_def canonicalize_numerals canonicalize_plain)
  qed
qed

lemma permitted_unit:
  assumes "item \<in> set PERMITTED" "map canonicalize item = map canonicalize u"
  shows "(\<exists>c. u = [c] \<and> unit1 c) \<or> (\<exists>c1 c2 c3. u = [c1, c2, c3] \<and> unit3 c1 c2 c3)"
proof -
  from assms(2) have len: "length u = length item"
    by (metis length_map)
  from assms(1) consider
    (three) w where "item = js w" "w \<in> set [''maj'', ''min'', ''dim'', ''aug'', ''sus'', ''add'']"
    | (one) k where "item = [k]"
      "k \<in> set [109, 43, 45, 47, 35, 98, 48, 49, 50, 51, 52, 53, 54, 55, 56, 57,
                 65, 66, 67, 68, 69, 70, 71, 176, 916]"
    unfolding PERMITTED_set by blast
  then show ?thesis
  proof cases
    case one
    from len one(1) obtain c where u: "u = [c]"
      by (cases u) auto
    with assms(2) one(1) have "canonicalize c = canonicalize k" by simp
    from unit1_of_canonical [OF one(2) this] u show ?thesis by blast
  next
    case three
    from three(2) have "length (js w) = 3" by (auto simp: js_def)
    with len three(1) obtain c1 c2 c3 where u: "u = [c1, c2, c3]"
      by (cases u rule: chordTail.cases) auto
    with assms(2) three(1) have "word3 w c1 c2 c3"
      by (simp add: word3_def)
    with three(2) have "unit3 c1 c2 c3"
      unfolding unit3_def by auto
    with u show ?thesis by blast
  qed
qed

lemma single_permitted:
  "k \<in> set [109, 43, 45, 47, 35, 98, 48, 49, 50, 51, 52, 53, 54, 55, 56, 57,
             65, 66, 67, 68, 69, 70, 71, 176, 916] \<Longrightarrow> [k] \<in> set PERMITTED"
  unfolding PERMITTED_set by blast

lemma unit1_permitted:
  assumes "unit1 c"
  shows "\<exists>item \<in> set PERMITTED. map canonicalize item = map canonicalize [c]"
proof -
  have pick: ?thesis
    if "k \<in> set [109, 43, 45, 47, 35, 98, 48, 49, 50, 51, 52, 53, 54, 55, 56, 57,
                   65, 66, 67, 68, 69, 70, 71, 176, 916]" "canonicalize k = canonicalize c" for k
    using single_permitted [OF that(1)] that(2) by (intro bexI [of _ "[k]"]) simp_all
  from assms consider "ci 109 c" | "isDigit c" | "c = 47" | "isRootLetter c" | "c = 35"
    | "ci 98 c" | "c = 43" | "c = 45" | "c = 176" | "ci 916 c"
    unfolding unit1_def by blast
  then show ?thesis
  proof cases
    case 1 then show ?thesis by (intro pick [of 109]) (simp_all add: ci_def)
  next
    case 2
    then have "c \<in> set [48, 49, 50, 51, 52, 53, 54, 55, 56, 57]"
      unfolding isDigit_def by simp presburger
    then show ?thesis by (intro pick [of c]) auto
  next
    case 3 then show ?thesis by (intro pick [of 47]) simp_all
  next
    case 4
    then have "canonicalize c \<in> set [65, 66, 67, 68, 69, 70, 71]"
      unfolding isRootLetter_def by simp presburger
    then show ?thesis
      by (intro pick [of "canonicalize c"]) (auto simp: canonicalize_idem)
  next
    case 5 then show ?thesis by (intro pick [of 35]) simp_all
  next
    case 6 then show ?thesis by (intro pick [of 98]) (simp_all add: ci_def)
  next
    case 7 then show ?thesis by (intro pick [of 43]) simp_all
  next
    case 8 then show ?thesis by (intro pick [of 45]) simp_all
  next
    case 9 then show ?thesis by (intro pick [of 176]) simp_all
  next
    case 10 then show ?thesis by (intro pick [of 916]) (simp_all add: ci_def)
  qed
qed

lemma unit3_permitted:
  assumes "unit3 c1 c2 c3"
  shows "\<exists>item \<in> set PERMITTED. map canonicalize item = map canonicalize [c1, c2, c3]"
proof -
  from assms obtain w where w: "w \<in> set [''maj'', ''min'', ''dim'', ''aug'', ''sus'', ''add'']"
    and m: "word3 w c1 c2 c3"
    unfolding unit3_def by auto
  from w have "js w \<in> set PERMITTED"
    unfolding PERMITTED_set by blast
  with m show ?thesis
    unfolding word3_def by blast
qed

lemma chordTail_permittedSeq: "chordTail s \<Longrightarrow> permittedSeq False s"
proof (induction s rule: chordTail.induct)
  case 1
  show ?case by (rule permittedSeq_Nil)
next
  case (2 c1)
  then have "unit1 c1" by simp
  from unit1_permitted [OF this] obtain item
    where "item \<in> set PERMITTED" "sameText False item [c1]"
    by (auto simp: sameText_def)
  from permittedSeq_item [OF this permittedSeq_Nil] show ?case by simp
next
  case (3 c1 c2)
  then have u: "unit1 c1" and t: "chordTail [c2]" by simp_all
  from unit1_permitted [OF u] obtain item
    where "item \<in> set PERMITTED" "sameText False item [c1]"
    by (auto simp: sameText_def)
  moreover from u t "3.IH" have "permittedSeq False [c2]" by blast
  ultimately show ?case using permittedSeq_item [of item False "[c1]" "[c2]"] by simp
next
  case (4 c1 c2 c3 cs)
  from "4.prems" consider "unit1 c1" "chordTail (c2 # c3 # cs)"
    | "unit3 c1 c2 c3" "chordTail cs"
    by auto
  then show ?case
  proof cases
    case 1
    from unit1_permitted [OF 1(1)] obtain item
      where "item \<in> set PERMITTED" "sameText False item [c1]"
      by (auto simp: sameText_def)
    moreover from 1 "4.IH" have "permittedSeq False (c2 # c3 # cs)" by blast
    ultimately show ?thesis
      using permittedSeq_item [of item False "[c1]" "c2 # c3 # cs"] by simp
  next
    case 2
    from unit3_permitted [OF 2(1)] obtain item
      where "item \<in> set PERMITTED" "sameText False item [c1, c2, c3]"
      by (auto simp: sameText_def)
    moreover from 2 "4.IH" have "permittedSeq False cs" by blast
    ultimately show ?thesis
      using permittedSeq_item [of item False "[c1, c2, c3]" cs] by simp
  qed
qed

lemma permittedSeq_chordTail: "permittedSeq False s \<Longrightarrow> chordTail s"
proof (induction rule: permittedSeq.induct)
  case permittedSeq_Nil
  show ?case by simp
next
  case (permittedSeq_item item u rest)
  from permittedSeq_item(2) have "map canonicalize item = map canonicalize u"
    by (simp add: sameText_def)
  from permitted_unit [OF permittedSeq_item(1) this] permittedSeq_item.IH
  show ?case by (auto intro: chordTail_Cons1 chordTail_Cons3)
qed

lemma rootLetterSpec_insensitive: "rootLetterSpec False r = isRootLetter r"
proof -
  have "isRootLetter r = (canonicalize r \<in> set [65, 66, 67, 68, 69, 70, 71])"
    unfolding isRootLetter_def by simp presburger
  then show ?thesis
    by (simp add: rootLetterSpec_def sameText_def canonicalize_numerals eq_commute)
qed

lemma accidentalSpec_insensitive:
  "accidentalSpec False acc = (acc = [] \<or> (\<exists>a. acc = [a] \<and> isAccidental a))"
proof -
  have "(map canonicalize [35] = map canonicalize acc) = (\<exists>a. acc = [a] \<and> a = 35)"
    by (cases acc) (auto simp: canonicalize_numerals canonicalize_plain eq_commute)
  moreover have "(map canonicalize [98] = map canonicalize acc) = (\<exists>a. acc = [a] \<and> ci 98 a)"
    by (cases acc) (auto simp: ci_def)
  ultimately show ?thesis
    unfolding accidentalSpec_def sameText_def isAccidental_def
    by (auto simp: js_def)
qed

lemma isChordLike_spec: "isChordLike tok = looksLikeChordSpec False tok"
proof (cases tok)
  case Nil
  then show ?thesis by (simp add: isChordLike_def looksLikeChordSpec_def)
next
  case (Cons r cs)
  let ?code = "(case cs of a # rest \<Rightarrow> isAccidental a \<and> chordTail rest | [] \<Rightarrow> False) \<or>
      chordTail cs"
  let ?spec = "\<exists>acc rest. cs = acc @ rest \<and> accidentalSpec False acc \<and> permittedSeq False rest"
  have "?code = ?spec"
  proof
    assume ?code
    then consider a rest where "cs = a # rest" "isAccidental a" "chordTail rest"
      | "chordTail cs"
      by (auto split: list.splits)
    then show ?spec
    proof cases
      case 1
      then have "cs = [a] @ rest \<and> accidentalSpec False [a] \<and> permittedSeq False rest"
        by (simp add: accidentalSpec_insensitive chordTail_permittedSeq)
      then show ?thesis by blast
    next
      case 2
      then have "cs = [] @ cs \<and> accidentalSpec False [] \<and> permittedSeq False cs"
        by (simp add: accidentalSpec_insensitive chordTail_permittedSeq)
      then show ?thesis by blast
    qed
  next
    assume ?spec
    then obtain acc rest where s: "cs = acc @ rest" "accidentalSpec False acc"
      and "permittedSeq False rest" by blast
    then have t: "chordTail rest" by (simp add: permittedSeq_chordTail)
    from s(2) consider "acc = []" | a where "acc = [a]" "isAccidental a"
      unfolding accidentalSpec_insensitive by blast
    then show ?code
    proof cases
      case 1
      with s t show ?thesis by simp
    next
      case 2
      with s t show ?thesis by simp
    qed
  qed
  then show ?thesis
    unfolding Cons isChordLike_def looksLikeChordSpec_def
    by (simp add: rootLetterSpec_insensitive)
qed

text \<open>
  C6, as the program has it. \<open>isChordLike\<close> (the specification's \<open>looksLikeChord\<close>)
  holds exactly when the token starts with a letter A to G in either case, optionally
  followed by \<open>#\<close> or \<open>b\<close>, followed by zero or more items of the permitted set, each
  compared without regard to case. \<open>Bb7/D\<close> is chord-like; \<open>Take\<close> and \<open>take\<close> are not.
\<close>

theorem isChordLike_refines_description:
  "isChordLike tok = looksLikeChordSpec False tok \<and>
   isChordLike (js ''Bb7/D'') \<and>
   \<not> isChordLike (js ''Take'') \<and>
   \<not> isChordLike (js ''take'')"
proof (intro conjI)
  show "isChordLike tok = looksLikeChordSpec False tok"
    by (rule isChordLike_spec)
  show "isChordLike (js ''Bb7/D'')" and "\<not> isChordLike (js ''Take'')"
    and "\<not> isChordLike (js ''take'')"
    by (simp_all add: text_eval)
qed

theorem isChordLike_refines_description_witness:
  "isChordLike (js ''Bb7/D'') \<and> looksLikeChordSpec False (js ''Bb7/D'') \<and>
   \<not> looksLikeChordSpec False (js ''Take'')"
  using isChordLike_refines_description [of "js ''Bb7/D''"]
    isChordLike_refines_description [of "js ''Take''"]
  by simp

text \<open>
  The claim as stated, with a case-sensitive root check, fails: \<open>em\<close> is chord-like for
  the program, and its first letter is not one of the capitals A to G.
\<close>

theorem isChordLike_case_counterexample:
  "isChordLike (js ''em'') \<and> \<not> looksLikeChordSpec True (js ''em'')"
  by (simp add: text_eval looksLikeChordSpec_def rootLetterSpec_def sameText_def)

lemma upto_0_11: "[0..11] = [0, 1, 2, 3, 4, 5, 6, 7, 8, 9, 10, 11 :: int]"
  by (simp add: upto.simps)

section \<open>Capo advisor (C4)\<close>

lemma suggestCapos_eq:
  "suggestCaposForTargetKey k =
     take 5 (sort_key (\<lambda>s. - score s) (map (capoCandidate k) [0..11]))"
  by (simp add: suggestCaposForTargetKey_def capoCandidate_def [abs_def] Let_def)

lemma capoCandidate_fields:
  "capoFret (capoCandidate k f) = f"
  "shapesKey (capoCandidate k f) = shapesKeyFor k f"
  "reason (capoCandidate k f) = reasonFor (shapesKeyFor k f) f"
  "score (capoCandidate k f) = scoreCapo (shapesKeyFor k f) f"
  by (simp_all add: capoCandidate_def)

lemma arrayIndexOf_bias:
  "arrayIndexOf [js ''G'', js ''C'', js ''D'', js ''A'', js ''E''] key =
     (if key = js ''G'' then 0 else if key = js ''C'' then 1 else if key = js ''D'' then 2
      else if key = js ''A'' then 3 else if key = js ''E'' then 4 else - 1)"
  by (auto simp: Let_def)

lemma scoreCapo_formula:
  "scoreCapo key f =
     (if key \<in> set OPEN_SHAPE_KEYS then 100 else 0)
     + (if f \<le> 5 then of_int (20 - 2 * f) else of_int (max 0 (10 - 3 * (f - 5))))
     + (if key = js ''G'' then 5 / 2 else if key = js ''C'' then 2
        else if key = js ''D'' then 3 / 2 else if key = js ''A'' then 1
        else if key = js ''E'' then 1 / 2 else 5 / 2)"
  unfolding scoreCapo_def Let_def arrayIndexOf_bias
  by (simp add: mult.commute)

lemma scores_C:
  "map (\<lambda>f. scoreCapo (shapesKeyFor (js ''C'') f) f) [0, 1, 2, 3, 4, 5, 6, 7, 8, 9, 10, 11]
     = [122, 41 / 2, 37 / 2, 115, 29 / 2, 225 / 2, 19 / 2, 13 / 2, 203 / 2, 5 / 2, 203 / 2, 5 / 2]"
  by (simp add: scoreCapo_formula shapesKeyFor_def preferSharpsForKey_def SHARP_KEYS_def
      FLAT_KEYS_def OPEN_SHAPE_KEYS_def text_eval)

lemma score_C:
  "score (capoCandidate (js ''C'') 0) = 122"
  "score (capoCandidate (js ''C'') 1) = 41 / 2"
  "score (capoCandidate (js ''C'') 2) = 37 / 2"
  "score (capoCandidate (js ''C'') 3) = 115"
  "score (capoCandidate (js ''C'') 4) = 29 / 2"
  "score (capoCandidate (js ''C'') 5) = 225 / 2"
  "score (capoCandidate (js ''C'') 6) = 19 / 2"
  "score (capoCandidate (js ''C'') 7) = 13 / 2"
  "score (capoCandidate (js ''C'') 8) = 203 / 2"
  "score (capoCandidate (js ''C'') 9) = 5 / 2"
  "score (capoCandidate (js ''C'') 10) = 203 / 2"
  "score (capoCandidate (js ''C'') 11) = 5 / 2"
  using scores_C by (simp_all add: capoCandidate_fields)

lemma sorted_C:
  "sort_key (\<lambda>s. - score s)
     (map (capoCandidate (js ''C'')) [0, 1, 2, 3, 4, 5, 6, 7, 8, 9, 10, 11])
   = map (capoCandidate (js ''C'')) [0, 3, 5, 8, 10, 1, 2, 4, 6, 7, 9, 11]"
  by (simp add: score_C)

lemma suggest_C:
  "suggestCaposForTargetKey (js ''C'') = map (capoCandidate (js ''C'')) [0, 3, 5, 8, 10]"
  unfolding suggestCapos_eq upto_0_11 sorted_C by simp

lemma top_of_sorted:
  fixes f :: "'a \<Rightarrow> 'b::linorder"
  assumes "a \<in> set (take n (sort_key f xs))" "b \<in> set xs"
    and "b \<notin> set (take n (sort_key f xs))"
  shows "f a \<le> f b"
proof -
  let ?ys = "sort_key f xs"
  from assms(2) have "b \<in> set (take n ?ys @ drop n ?ys)" by simp
  with assms(3) have b: "b \<in> set (drop n ?ys)" by (simp only: set_append Un_iff) blast
  have "sorted (map f (take n ?ys @ drop n ?ys))" by simp
  then have "\<forall>x\<in>set (take n ?ys). \<forall>y\<in>set (drop n ?ys). f x \<le> f y"
    unfolding map_append sorted_append by auto
  with assms(1) b show ?thesis by blast
qed

lemma candidates_frets: "map capoFret (map (capoCandidate k) fs) = fs"
  by (induction fs) (simp_all add: capoCandidate_fields)

lemma suggestCapos_general:
  fixes k :: jstring
  defines "r \<equiv> suggestCaposForTargetKey k"
  shows "length r = 5"
    and "sorted_wrt (\<lambda>a b. score a \<ge> score b) r"
    and "distinct (map capoFret r)"
    and "s \<in> set r \<Longrightarrow> \<exists>f. 0 \<le> f \<and> f \<le> 11 \<and> s = capoCandidate k f"
    and "s \<in> set r \<Longrightarrow> 0 \<le> f \<Longrightarrow> f \<le> 11 \<Longrightarrow> f \<notin> capoFret ` set r \<Longrightarrow>
           scoreCapo (shapesKeyFor k f) f \<le> score s"
proof -
  let ?key = "\<lambda>s. - score s"
  let ?xs = "map (capoCandidate k) [0..11]"
  let ?ys = "sort_key ?key ?xs"
  have r: "r = take 5 ?ys" by (simp add: r_def suggestCapos_eq)
  have len: "length ?ys = 12" by simp
  then show "length r = 5" unfolding r by simp
  have "sorted (map ?key ?ys)" by (rule sorted_sort_key)
  then have "sorted_wrt (\<lambda>a b. score a \<ge> score b) ?ys"
    by (simp add: sorted_map)
  then show "sorted_wrt (\<lambda>a b. score a \<ge> score b) r"
    unfolding r by (rule sorted_wrt_take)
  have "distinct (map capoFret ?xs)"
    by (simp only: candidates_frets distinct_upto)
  then have "distinct ?xs" "inj_on capoFret (set ?xs)"
    by (simp_all only: distinct_map)
  then have d: "distinct ?ys" and i: "inj_on capoFret (set ?ys)"
    by simp_all
  from d have "distinct (take 5 ?ys)" by (rule distinct_take)
  moreover from i have "inj_on capoFret (set (take 5 ?ys))"
    by (rule inj_on_subset) (rule set_take_subset)
  ultimately have "distinct (take 5 ?ys)" "inj_on capoFret (set (take 5 ?ys))" .
  then show "distinct (map capoFret r)"
    unfolding r by (simp only: distinct_map simp_thms)
  have mem: "\<exists>f. 0 \<le> f \<and> f \<le> 11 \<and> s = capoCandidate k f" if "s \<in> set r" for s
  proof -
    from that have "s \<in> set ?ys" unfolding r by (rule in_set_takeD)
    then have "s \<in> set ?xs" by simp
    then show ?thesis by auto
  qed
  then show "s \<in> set r \<Longrightarrow> \<exists>f. 0 \<le> f \<and> f \<le> 11 \<and> s = capoCandidate k f" .
  show "scoreCapo (shapesKeyFor k f) f \<le> score s"
    if s: "s \<in> set r" and f: "0 \<le> f" "f \<le> 11" "f \<notin> capoFret ` set r"
  proof -
    let ?b = "capoCandidate k f"
    from f(1,2) have bx: "?b \<in> set ?xs" by simp
    have "?b \<notin> set (take 5 ?ys)"
    proof
      assume "?b \<in> set (take 5 ?ys)"
      then have "capoFret ?b \<in> capoFret ` set r" unfolding r by (rule imageI)
      with f(3) show False by (simp add: capoCandidate_fields)
    qed
    from top_of_sorted [OF s [unfolded r] bx this]
    show ?thesis by (simp add: capoCandidate_fields)
  qed
qed

text \<open>
  C4. \<open>suggestCaposForTargetKey\<close> considers the twelve frets 0 to 11 and returns exactly
  five suggestions, in descending order of score, of distinct frets within 0 to 11, each
  carrying the shapes key and score of its fret; every fret of 0 to 11 that is not
  returned scores no higher than any returned one. The score is 100 for a shapes key in
  \<open>{C, G, D, A, E}\<close>, plus \<open>20 - 2 * fret\<close> up to fret 5 and \<open>max(0, 10 - 3 * (fret - 5))\<close>
  beyond, plus a bias of 2.5, 2, 1.5, 1, 0.5 for the keys G, C, D, A, E in this order
  (and 2.5 for any other key, which never has the 100). For the target key C the
  suggested frets are 0, 3, 5, 8, 10: the first has \<open>capoFret = 0\<close>.
\<close>

theorem capo_suggestions_ranked:
  "length (suggestCaposForTargetKey k) = 5 \<and>
   sorted_wrt (\<lambda>a b. score a \<ge> score b) (suggestCaposForTargetKey k) \<and>
   distinct (map capoFret (suggestCaposForTargetKey k)) \<and>
   (s \<in> set (suggestCaposForTargetKey k) \<longrightarrow>
      0 \<le> capoFret s \<and> capoFret s \<le> 11 \<and>
      shapesKey s = shapesKeyFor k (capoFret s) \<and>
      score s = scoreCapo (shapesKey s) (capoFret s) \<and>
      reason s = reasonFor (shapesKey s) (capoFret s)) \<and>
   (s \<in> set (suggestCaposForTargetKey k) \<and> 0 \<le> f \<and> f \<le> 11 \<and>
    f \<notin> capoFret ` set (suggestCaposForTargetKey k) \<longrightarrow>
      scoreCapo (shapesKeyFor k f) f \<le> score s) \<and>
   scoreCapo key f =
     (if key \<in> set OPEN_SHAPE_KEYS then 100 else 0)
     + (if f \<le> 5 then of_int (20 - 2 * f) else of_int (max 0 (10 - 3 * (f - 5))))
     + (if key = js ''G'' then 5 / 2 else if key = js ''C'' then 2
        else if key = js ''D'' then 3 / 2 else if key = js ''A'' then 1
        else if key = js ''E'' then 1 / 2 else 5 / 2) \<and>
   OPEN_SHAPE_KEYS = [js ''C'', js ''G'', js ''D'', js ''A'', js ''E''] \<and>
   map capoFret (suggestCaposForTargetKey (js ''C'')) = [0, 3, 5, 8, 10] \<and>
   capoFret (suggestCaposForTargetKey (js ''C'') ! 0) = 0"
proof (intro conjI impI)
  show "length (suggestCaposForTargetKey k) = 5"
    and "sorted_wrt (\<lambda>a b. score a \<ge> score b) (suggestCaposForTargetKey k)"
    and "distinct (map capoFret (suggestCaposForTargetKey k))"
    by (rule suggestCapos_general)+
next
  assume "s \<in> set (suggestCaposForTargetKey k)"
  from suggestCapos_general(4) [OF this] obtain g
    where g: "0 \<le> g" "g \<le> 11" "s = capoCandidate k g" by blast
  then show "0 \<le> capoFret s" and "capoFret s \<le> 11"
    and "shapesKey s = shapesKeyFor k (capoFret s)"
    and "score s = scoreCapo (shapesKey s) (capoFret s)"
    and "reason s = reasonFor (shapesKey s) (capoFret s)"
    by (simp_all add: capoCandidate_fields)
next
  assume "s \<in> set (suggestCaposForTargetKey k) \<and> 0 \<le> f \<and> f \<le> 11 \<and>
    f \<notin> capoFret ` set (suggestCaposForTargetKey k)"
  then show "scoreCapo (shapesKeyFor k f) f \<le> score s"
    by (intro suggestCapos_general(5)) blast+
next
  show "scoreCapo key f =
     (if key \<in> set OPEN_SHAPE_KEYS then 100 else 0)
     + (if f \<le> 5 then of_int (20 - 2 * f) else of_int (max 0 (10 - 3 * (f - 5))))
     + (if key = js ''G'' then 5 / 2 else if key = js ''C'' then 2
        else if key = js ''D'' then 3 / 2 else if key = js ''A'' then 1
        else if key = js ''E'' then 1 / 2 else 5 / 2)"
    by (rule scoreCapo_formula)
next
  show "OPEN_SHAPE_KEYS = [js ''C'', js ''G'', js ''D'', js ''A'', js ''E'']"
    by (rule OPEN_SHAPE_KEYS_def)
next
  show "map capoFret (suggestCaposForTargetKey (js ''C'')) = [0, 3, 5, 8, 10]"
    and "capoFret (suggestCaposForTargetKey (js ''C'') ! 0) = 0"
    by (simp_all add: suggest_C capoCandidate_fields)
qed

theorem capo_suggestions_ranked_witness:
  "capoCandidate (js ''C'') 0 \<in> set (suggestCaposForTargetKey (js ''C'')) \<and>
   (0::int) \<le> 1 \<and> (1::int) \<le> 11 \<and> 1 \<notin> capoFret ` set (suggestCaposForTargetKey (js ''C'')) \<and>
   capoFret (capoCandidate (js ''C'') 0) = 0 \<and>
   shapesKey (capoCandidate (js ''C'') 0) = shapesKeyFor (js ''C'') 0 \<and>
   scoreCapo (shapesKeyFor (js ''C'') 1) 1 \<le> score (capoCandidate (js ''C'') 0)"
proof -
  have h1: "capoCandidate (js ''C'') 0 \<in> set (suggestCaposForTargetKey (js ''C''))"
    by (simp add: suggest_C)
  have h2: "1 \<notin> capoFret ` set (suggestCaposForTargetKey (js ''C''))"
    by (simp add: suggest_C capoCandidate_fields)
  have h3: "(0::int) \<le> 1" "(1::int) \<le> 11" by simp_all
  from capo_suggestions_ranked [of "js ''C''" "capoCandidate (js ''C'') 0" 1 "js ''G''"]
    h1 h2 h3
  have "scoreCapo (shapesKeyFor (js ''C'') 1) 1 \<le> score (capoCandidate (js ''C'') 0)"
    and "shapesKey (capoCandidate (js ''C'') 0) =
         shapesKeyFor (js ''C'') (capoFret (capoCandidate (js ''C'') 0))"
    by blast+
  with h1 h2 h3 show ?thesis by (simp add: capoCandidate_fields)
qed

section \<open>Voicing catalog (C8, C3)\<close>

lemmas voicing_eval = parseChordSymbol_def matchRootTail_def isLineTerminator_def
  normalizeEnharmonic_def toSharp_def NOTE_ORDER_SHARPS_def toLowerCase_def toLowerCase1_def
  js_def char_eval Let_def

lemma parse_Fsharp_m: "parseChordSymbol (js ''F#m'') = Inr (Some (js ''F#'', js ''m''))"
  by (simp add: voicing_eval)

lemma quality_m: "coarseQuality (js ''m'') = Min"
  by (simp add: coarseQuality_def js_def isWordChar_def)

lemma distances_Fsharp:
  "semitoneDistance (js ''E'') (js ''F#'') = 2"
  "semitoneDistance (js ''A'') (js ''F#'') = 9"
  by (simp_all add: semitoneDistance_def NOTE_ORDER_SHARPS_def js_def Let_def
      signed_modulo_int_def)

lemma barres_Fsharp_min:
  "generateBarresFor (js ''F#'') Min =
     [makeBarre (js ''F#'') Min SysE 2, makeBarre (js ''F#'') Min SysA 9,
      makeBarre (js ''F#'') Min SysE 14]"
  by (simp add: generateBarresFor_def baseFretFor_Eshape_def baseFretFor_Ashape_def
      distances_Fsharp chooseComfortableBaseFret_def Let_def makeBarre_def)

lemma makeBarre_fields:
  "baseFret (makeBarre rt q sys b) = b"
  "family (makeBarre rt q sys b) = Some (if sys = SysE then BarreE else BarreA)"
  by (simp_all add: makeBarre_def Let_def tplE_major_def tplE_minor_def tplE_7_def
      tplA_major_def tplA_minor_def tplA_7_def)

lemma no_open_Fsharp:
  "map_of OPEN_SHAPES (js ''F#m'') = None"
  "map_of OPEN_SHAPES (js ''F#'') = None"
  by (simp_all add: OPEN_SHAPES_def js_def)

lemma voicings_Fsharp_m:
  "findVoicingsFor (js ''F#m'') =
     Inr [makeBarre (js ''F#'') Min SysE 2, makeBarre (js ''F#'') Min SysA 9,
          makeBarre (js ''F#'') Min SysE 14]"
proof -
  have k: "js ''F#'' @ js ''m'' = js ''F#m''" by (simp add: js_def)
  show ?thesis
    unfolding findVoicingsFor_def parse_Fsharp_m
    by (simp add: quality_m k no_open_Fsharp barres_Fsharp_min makeBarre_fields)
qed

text \<open>
  C8. \<open>findVoicingsFor("F#m")\<close> returns three voicings, all generated barres: the E-shape
  at fret 2, the A-shape at fret 9 and the E-shape at fret 14. None is an open shape, and
  each base fret is the distance of F# from the open E string (2) or from the open A
  string (9), or such a distance raised by 12 where that lies within 13 to 17.
\<close>

theorem findVoicingsFor_Fsharp_minor:
  "(case findVoicingsFor (js ''F#m'') of
      Inl e \<Rightarrow> False
    | Inr vs \<Rightarrow>
        vs \<noteq> [] \<and>
        list_ex (\<lambda>v. family v = Some BarreE \<or> family v = Some BarreA) vs \<and>
        \<not> list_ex (\<lambda>v. family v = Some Open) vs \<and>
        list_all (\<lambda>v.
            (family v = Some BarreE \<or> family v = Some BarreA) \<and>
            (baseFret v = semitoneDistance (js ''E'') (js ''F#'') \<or>
             baseFret v = semitoneDistance (js ''A'') (js ''F#'') \<or>
             ((baseFret v = semitoneDistance (js ''E'') (js ''F#'') + 12 \<or>
               baseFret v = semitoneDistance (js ''A'') (js ''F#'') + 12) \<and>
              13 \<le> baseFret v \<and> baseFret v \<le> 17))) vs \<and>
        map baseFret vs = [2, 9, 14] \<and>
        map family vs = [Some BarreE, Some BarreA, Some BarreE]) \<and>
   semitoneDistance (js ''E'') (js ''F#'') = 2 \<and>
   semitoneDistance (js ''A'') (js ''F#'') = 9"
  by (simp add: voicings_Fsharp_m makeBarre_fields distances_Fsharp)

text \<open>
  C3 does not hold for \<open>parseChordSymbol\<close> and \<open>findVoicingsFor\<close>: their pattern
  accepts a lower-case root, which \<open>toSharp\<close> then rejects with an exception, although
  \<open>normNote\<close> of the transposition path upper-cases such a root and the token is
  chord-like.
\<close>

theorem parseChordSymbol_lowercase_throws:
  "parseChordSymbol (js ''am'') = Inl (BadNote (js ''a'')) \<and>
   findVoicingsFor (js ''am'') = Inl (BadNote (js ''a'')) \<and>
   isChordLike (js ''am'') \<and>
   normNote (js ''a'') = Some (js ''A'') \<and>
   transposeChordText (js ''am'') 0 True = js ''Am''"
proof -
  have p: "parseChordSymbol (js ''am'') = Inl (BadNote (js ''a''))"
    by (simp add: voicing_eval)
  then have "findVoicingsFor (js ''am'') = Inl (BadNote (js ''a''))"
    by (simp add: findVoicingsFor_def)
  moreover have "isChordLike (js ''am'')" "normNote (js ''a'') = Some (js ''A'')"
    "transposeChordText (js ''am'') 0 True = js ''Am''"
    by (simp_all add: text_eval)
  ultimately show ?thesis using p by simp
qed

section \<open>Round trip of tokens (C2)\<close>



































end
